theory Spec2Isabelle
  imports Main "HOL-Library.Word" "HOL-Library.Signed_Division"
begin

unbundle bit_operations_syntax

section \<open>Machine integers and formatting\<close>

text \<open>
  Go's \<open>int64\<close> is a 64-bit word: \<open>+\<close>, \<open>-\<close> and \<open><<\<close> wrap around, comparisons read
  the word as two's complement (\<open><s\<close>, \<open>\<le>s\<close>), and \<open>/\<close> and \<open>%\<close> truncate towards zero.
  The parameter \<open>counts\<close> has Go type \<open>int\<close>, which is 64 bits wide on the 64-bit
  platforms the generator is built for; \<open>int64(counts)\<close> is then the identity.
\<close>

type_synonym int64 = "64 word"

definition go_div :: "int64 \<Rightarrow> int64 \<Rightarrow> int64" where
  "go_div a b = word_of_int (sint a sdiv sint b)"

definition go_mod :: "int64 \<Rightarrow> int64 \<Rightarrow> int64" where
  "go_mod a b = word_of_int (sint a smod sint b)"

text \<open>The verb \<open>%v\<close> of \<open>fmt.Sprintf\<close> prints an \<open>int64\<close> in decimal, with a minus sign.\<close>

definition digit_char :: "nat \<Rightarrow> char" where
  "digit_char d = ''0123456789'' ! d"

fun dec_nat :: "nat \<Rightarrow> string" where
  "dec_nat n = (if n < 10 then [digit_char n] else dec_nat (n div 10) @ [digit_char (n mod 10)])"

declare dec_nat.simps [simp del]

definition fmt_int64 :: "int64 \<Rightarrow> string" where
  "fmt_int64 v = (if v <s 0 then CHR ''-'' # dec_nat (nat (- sint v)) else dec_nat (nat (sint v)))"

section \<open>Errors, panics and results\<close>

datatype error =
    ErrInvalidServerIDs
  | ErrStore string
  | ErrRand string
  | ErrPickServerID error
  | ErrRecycling int64
  | ErrSecondsOverflow int64
  | ErrServerIDOverflow int64
  | ErrNotEnough string int64 nat int64
  | ErrGenID error

datatype panic = PanicMakesliceCap | PanicRandIntArg | PanicIndexOutOfRange

datatype 'a outcome = Return 'a | Failure error | Panic panic

section \<open>The environment: clock, entropy, counter store\<close>

text \<open>
  The commands the generator sends to the store, in the order they are sent:
  \<open>INCRBY key delta\<close> and \<open>EXPIRE key ttl\<close>.
\<close>

datatype cmd = INCRBY string int64 | EXPIRE string int64

text \<open>
  The store client. \<open>IncrBy\<close> answers with an error or the new total; the answer of
  \<open>Expire\<close> is thrown away by the generator, so only its effect on the store is kept.
  The store state \<open>'s\<close> is whatever the client talks to; cancellation through the
  context shows as an error answer.
\<close>

record 's client =
  IncrBy :: "string \<Rightarrow> int64 \<Rightarrow> 's \<Rightarrow> (error + int64) \<times> 's"
  Expire :: "string \<Rightarrow> int64 \<Rightarrow> 's \<Rightarrow> 's"

text \<open>
  The world a call runs in: the successive readings of the wall clock
  (\<open>time.Now().UnixNano()\<close>), the successive answers of \<open>rand.Reader\<close>, the store, and
  the commands sent so far. Reading a stream takes its head and shifts it.
\<close>

record 's world =
  unixNano :: "nat \<Rightarrow> int64"
  randReader :: "nat \<Rightarrow> error + nat"
  store :: 's
  wire :: "cmd list"

record 's generator =
  cli :: "'s client"
  serverIDs :: "int64 list"
  namespace :: string

section \<open>The generator\<close>

definition maxCounter :: int64 where
  "maxCounter = push_bit 8 1 - 1"

definition counterKeyExpiration :: int64 where
  "counterKeyExpiration = 10 * 60000000000"

definition maxTimeAddrTimes :: nat where
  "maxTimeAddrTimes = 8"

definition NewIDGenerator :: "'s client \<Rightarrow> int64 list \<Rightarrow> error + 's generator" where
  "NewIDGenerator client ids =
     (if length ids = 0 then Inl ErrInvalidServerIDs
      else Inr \<lparr>cli = client, serverIDs = ids, namespace = []\<rparr>)"

definition incrBy :: "'s generator \<Rightarrow> string \<Rightarrow> int64 \<Rightarrow> 's world \<Rightarrow> (error + int64) \<times> 's world" where
  "incrBy g key num w =
     (case IncrBy (cli g) key num (store w) of
        (r, s') \<Rightarrow> (r, w\<lparr>store := s', wire := wire w @ [INCRBY key num]\<rparr>))"

definition expire :: "'s generator \<Rightarrow> string \<Rightarrow> 's world \<Rightarrow> 's world" where
  "expire g key w =
     w\<lparr>store := Expire (cli g) key counterKeyExpiration (store w),
       wire := wire w @ [EXPIRE key counterKeyExpiration]\<rparr>"

definition timeMS :: "'s world \<Rightarrow> int64 \<times> 's world" where
  "timeMS w = (go_div (unixNano w 0) 1000000, w\<lparr>unixNano := (\<lambda>i. unixNano w (Suc i))\<rparr>)"

definition counterKey :: "string \<Rightarrow> int64 \<Rightarrow> int64 \<Rightarrow> string" where
  "counterKey space serverID ms =
     ''id_generator:'' @ space @ '':'' @ fmt_int64 serverID @ '':'' @ fmt_int64 ms"

text \<open>
  \<open>rand.Int(rand.Reader, max)\<close> panics when \<open>max \<le> 0\<close>, passes on the reader's error,
  and otherwise returns a number in \<open>[0, max)\<close>: here the reader's answer reduced
  modulo \<open>max\<close>.
\<close>

definition pickServerID :: "'s generator \<Rightarrow> 's world \<Rightarrow> int64 outcome \<times> 's world" where
  "pickServerID g w =
     (if length (serverIDs g) = 0 then (Panic PanicRandIntArg, w)
      else
        (case randReader w 0 of
           Inl err \<Rightarrow> (Failure err, w\<lparr>randReader := (\<lambda>i. randReader w (Suc i))\<rparr>)
         | Inr r \<Rightarrow> (Return (serverIDs g ! (r mod length (serverIDs g))),
                     w\<lparr>randReader := (\<lambda>i. randReader w (Suc i))\<rparr>)))"

definition mkID :: "int64 \<Rightarrow> int64 \<Rightarrow> int64 \<Rightarrow> int64 \<Rightarrow> int64" where
  "mkID seconds millis i serverID =
     push_bit 32 seconds + push_bit 22 millis + push_bit 14 i + serverID"

lemma sint_succ_less:
  fixes i e :: int64
  assumes "i <s e"
  shows "sint (i + 1) = sint i + 1"
proof -
  have "sint e < 2 ^ 63" using sint_lt [of e] by simp
  moreover have "- (2 ^ 63) \<le> sint i" using sint_ge [of i] by simp
  moreover have "sint i < sint e" using assms by (simp add: word_sless_alt)
  ultimately have "signed_take_bit 63 (sint i + 1) = sint i + 1"
    by (intro signed_take_bit_int_eq_self) simp_all
  then show ?thesis
    by (simp add: sint_word_add)
qed

text \<open>The inner loop \<open>for i := start; i < end; i++ { ids = append(ids, id) }\<close>.\<close>

function emit :: "int64 \<Rightarrow> int64 \<Rightarrow> int64 \<Rightarrow> int64 \<Rightarrow> int64 \<Rightarrow> int64 list \<Rightarrow> int64 list" where
  "emit seconds millis serverID i end ids =
     (if i <s end then emit seconds millis serverID (i + 1) end (ids @ [mkID seconds millis i serverID])
      else ids)"
  by pat_completeness auto
termination
  by (relation "measure (\<lambda>(seconds, millis, serverID, i, e, ids). nat (sint e - sint i))")
     (auto simp: sint_succ_less word_sless_alt)

declare emit.simps [simp del]

text \<open>
  What one turn of the outer loop leaves behind: the loop variables for the next turn
  (after the body ran to its end or hit \<open>continue\<close>), or the error it returned with.
\<close>

type_synonym vars = "int64 \<times> int64 \<times> int64 list"

definition pickMS :: "int64 \<Rightarrow> 's world \<Rightarrow> int64 \<times> 's world" where
  "pickMS lastMs w =
     (case timeMS w of (t1, w1) \<Rightarrow>
     (case timeMS w1 of (t2, w2) \<Rightarrow>
        (let ms = (if lastMs <s t1 then t2 else lastMs) in
         (if ms \<le>s lastMs then ms + 1 else ms, w2))))"

definition attempt :: "'s generator \<Rightarrow> int64 \<Rightarrow> vars \<Rightarrow> 's world \<Rightarrow> (error + vars) \<times> 's world" where
  "attempt g serverID v w =
     (case v of (leftNum, lastMs, ids) \<Rightarrow>
     (case pickMS lastMs w of (ms, w1) \<Rightarrow>
     (let redisKey = counterKey (namespace g) serverID ms in
     (case incrBy g redisKey leftNum w1 of
        (Inl err, w2) \<Rightarrow> (Inl err, w2)
      | (Inr counter, w2) \<Rightarrow>
          (let start = counter - leftNum;
               w3 = (if start = 0 then expire g redisKey w2 else w2)
           in
           if maxCounter <s start then (Inr (leftNum, ms, ids), w3)
           else if counter <s leftNum then (Inl (ErrRecycling ms), w3)
           else
             (let end = (if maxCounter <s counter then maxCounter + 1 else counter);
                  leftNum' = (if maxCounter <s counter then counter - maxCounter - 1 else 0);
                  seconds = go_div ms 1000;
                  millis = go_mod ms 1000
              in
              if (seconds AND 0xFFFFFFFF) \<noteq> seconds then (Inl (ErrSecondsOverflow seconds), w3)
              else if (serverID AND 0x3FFF) \<noteq> serverID then (Inl (ErrServerIDOverflow serverID), w3)
              else (Inr (leftNum', ms, emit seconds millis serverID start end ids), w3)))))))"

text \<open>The outer loop \<open>for idx := 0; leftNum > 0 && idx < maxTimeAddrTimes; idx++\<close>.\<close>

function loop :: "'s generator \<Rightarrow> int64 \<Rightarrow> nat \<Rightarrow> vars \<Rightarrow> 's world \<Rightarrow> (error + vars) \<times> 's world" where
  "loop g serverID idx v w =
     (if 0 <s fst v \<and> idx < maxTimeAddrTimes then
        (case attempt g serverID v w of
           (Inl err, w') \<Rightarrow> (Inl err, w')
         | (Inr v', w') \<Rightarrow> loop g serverID (Suc idx) v' w')
      else (Inr v, w))"
  by pat_completeness auto
termination
  by (relation "measure (\<lambda>(g, serverID, idx, v, w). maxTimeAddrTimes - idx)") auto

declare loop.simps [simp del]

text \<open>
  \<open>make([]int64, 0, counts)\<close> panics at run time when the capacity is negative; it is
  the first thing that can go wrong, before a server id is picked.
\<close>

definition GenMultiIDs :: "'s generator \<Rightarrow> int64 \<Rightarrow> 's world \<Rightarrow> int64 list outcome \<times> 's world" where
  "GenMultiIDs g counts w =
     (if counts <s 0 then (Panic PanicMakesliceCap, w)
      else
        (case pickServerID g w of
           (Panic p, w1) \<Rightarrow> (Panic p, w1)
         | (Failure err, w1) \<Rightarrow> (Failure (ErrPickServerID err), w1)
         | (Return serverID, w1) \<Rightarrow>
             (case loop g serverID 0 (counts, 0, []) w1 of
                (Inl err, w2) \<Rightarrow> (Failure err, w2)
              | (Inr (leftNum, lastMs, ids), w2) \<Rightarrow>
                  if int (length ids) < sint counts \<or> leftNum \<noteq> 0
                  then (Failure (ErrNotEnough (namespace g) counts (length ids) lastMs), w2)
                  else (Return ids, w2))))"

definition GenID :: "'s generator \<Rightarrow> 's world \<Rightarrow> int64 outcome \<times> 's world" where
  "GenID g w =
     (case GenMultiIDs g 1 w of
        (Panic p, w') \<Rightarrow> (Panic p, w')
      | (Failure err, w') \<Rightarrow> (Failure (ErrGenID err), w')
      | (Return ids, w') \<Rightarrow>
          (case ids of [] \<Rightarrow> (Panic PanicIndexOutOfRange, w') | x # _ \<Rightarrow> (Return x, w')))"

section \<open>Runs of the outer loop\<close>

text \<open>
  The loop as the state machine it is: a configuration is the attempt index, the loop
  variables and the world; \<open>reaches g serverID c c'\<close> says that the loop started in
  \<open>c\<close> gets to \<open>c'\<close> after some number of attempts, none of which returned an
  error. An attempt is made from \<open>c'\<close> when the loop condition holds there.
\<close>

type_synonym 's config = "nat \<times> vars \<times> 's world"

inductive reaches :: "'s generator \<Rightarrow> int64 \<Rightarrow> 's config \<Rightarrow> 's config \<Rightarrow> bool"
  for g :: "'s generator" and serverID :: int64 and c :: "'s config" where
  reaches_init: "reaches g serverID c c"
| reaches_step: "reaches g serverID c (idx, v, w) \<Longrightarrow> 0 <s fst v \<Longrightarrow> idx < maxTimeAddrTimes \<Longrightarrow>
     attempt g serverID v w = (Inr v', w') \<Longrightarrow> reaches g serverID c (Suc idx, v', w')"

text \<open>
  A configuration of the loop inside the call \<open>GenMultiIDs g counts w0\<close>: the slice was
  made, the server id \<open>serverID\<close> was picked, and the loop got from its first
  configuration to \<open>(idx, v, w)\<close>.
\<close>

definition in_call :: "'s generator \<Rightarrow> int64 \<Rightarrow> 's world \<Rightarrow> int64 \<Rightarrow> 's config \<Rightarrow> bool" where
  "in_call g counts w0 serverID c \<longleftrightarrow>
     \<not> counts <s 0 \<and>
     (\<exists>w1. pickServerID g w0 = (Return serverID, w1) \<and>
           reaches g serverID (0, (counts, 0, []), w1) c)"

section \<open>Reading the wire\<close>

fun keyOf :: "cmd \<Rightarrow> string" where
  "keyOf (INCRBY key delta) = key"
| "keyOf (EXPIRE key ttl) = key"

fun isIncr :: "cmd \<Rightarrow> bool" where
  "isIncr (INCRBY key delta) = True"
| "isIncr (EXPIRE key ttl) = False"

section \<open>Reading an identifier\<close>

text \<open>
  The four bit fields of an identifier, high to low: 32 bits of seconds, 10 bits of
  milliseconds, 8 bits of counter, 14 bits of server id. The shifts are logical, so the
  seconds field is read as an unsigned 32-bit number.
\<close>

definition secondsOf :: "int64 \<Rightarrow> int64" where
  "secondsOf x = drop_bit 32 x"

definition millisOf :: "int64 \<Rightarrow> int64" where
  "millisOf x = (drop_bit 22 x) AND 0x3FF"

definition counterOf :: "int64 \<Rightarrow> int64" where
  "counterOf x = (drop_bit 14 x) AND 0xFF"

definition serverOf :: "int64 \<Rightarrow> int64" where
  "serverOf x = x AND 0x3FFF"

section \<open>Clocks\<close>

text \<open>
  Two things a wall clock may or may not do while a call runs: never show a time before
  the epoch, and never step back from one reading to the next.
\<close>

definition clock_after_epoch :: "(nat \<Rightarrow> int64) \<Rightarrow> bool" where
  "clock_after_epoch c \<longleftrightarrow> (\<forall>i. 0 \<le>s c i)"

definition clock_steady :: "(nat \<Rightarrow> int64) \<Rightarrow> bool" where
  "clock_steady c \<longleftrightarrow> (\<forall>i. c i \<le>s c (Suc i))"

section \<open>An in-memory counter store\<close>

text \<open>
  Modelled from the spec: the counter store itself (the Redis server behind
  \<open>redis.Client\<close>) is not part of the repository.  \<open>IncrementBy\<close> adds the delta
  to the integer stored at the key, taken as 0 when the key is absent, and returns the
  new total; a total outside the signed 64-bit range is refused and the key is left
  alone. \<open>Expire\<close> records a time to live on a key that exists.
\<close>

record redis =
  vals :: "string \<rightharpoonup> int64"
  ttls :: "string \<rightharpoonup> int64"

definition redisGet :: "redis \<Rightarrow> string \<Rightarrow> int64" where
  "redisGet s key = (case vals s key of None \<Rightarrow> 0 | Some v \<Rightarrow> v)"

definition redisIncrBy :: "string \<Rightarrow> int64 \<Rightarrow> redis \<Rightarrow> (error + int64) \<times> redis" where
  "redisIncrBy key delta s =
     (let total = sint (redisGet s key) + sint delta in
      if total < - (2 ^ 63) \<or> 2 ^ 63 \<le> total
      then (Inl (ErrStore ''ERR increment or decrement would overflow''), s)
      else (Inr (redisGet s key + delta), s\<lparr>vals := (vals s)(key \<mapsto> redisGet s key + delta)\<rparr>))"

definition redisExpire :: "string \<Rightarrow> int64 \<Rightarrow> redis \<Rightarrow> redis" where
  "redisExpire key ttl s =
     (case vals s key of None \<Rightarrow> s | Some v \<Rightarrow> s\<lparr>ttls := (ttls s)(key \<mapsto> ttl)\<rparr>)"

definition redisClient :: "redis client" where
  "redisClient = \<lparr>IncrBy = redisIncrBy, Expire = redisExpire\<rparr>"

definition emptyRedis :: redis where
  "emptyRedis = \<lparr>vals = Map.empty, ttls = Map.empty\<rparr>"

section \<open>A generator on the in-memory store\<close>

text \<open>
  A generator with one server id, and a world whose clock stands still at a given
  reading, whose entropy source always answers 0, and whose store is empty.
\<close>

definition g7 :: "redis generator" where
  "g7 = \<lparr>cli = redisClient, serverIDs = [7], namespace = ''ns''\<rparr>"

definition frozen :: "int64 \<Rightarrow> redis world" where
  "frozen nano = \<lparr>unixNano = (\<lambda>i. nano), randReader = (\<lambda>i. Inr 0), store = emptyRedis, wire = []\<rparr>"

text \<open>
  The same generator on any client, a world with any clock and store, and a client that
  answers every increment with one fixed total, whatever was asked.
\<close>

definition generatorOn :: "'s client \<Rightarrow> 's generator" where
  "generatorOn c = \<lparr>cli = c, serverIDs = [7], namespace = ''ns''\<rparr>"

definition worldOn :: "(nat \<Rightarrow> int64) \<Rightarrow> 's \<Rightarrow> 's world" where
  "worldOn clock s = \<lparr>unixNano = clock, randReader = (\<lambda>i. Inr 0), store = s, wire = []\<rparr>"

definition answering :: "int64 \<Rightarrow> unit client" where
  "answering t = \<lparr>IncrBy = (\<lambda>key delta s. (Inr t, s)), Expire = (\<lambda>key ttl s. s)\<rparr>"

text \<open>
  A world on the in-memory store in which every counter stands at -5: the counting
  space was recycled underneath the generator.
\<close>

definition recycled :: "redis world" where
  "recycled = \<lparr>unixNano = (\<lambda>i. 5000000), randReader = (\<lambda>i. Inr 0),
     store = \<lparr>vals = (\<lambda>key. Some (- 5)), ttls = Map.empty\<rparr>, wire = []\<rparr>"

text \<open>
  A world for the client that answers with a fixed total, whose clock shows the
  milliseconds 5, 5, 6 and from then on 4: it steps back between the third and the
  fourth reading.
\<close>

definition steppingBack :: "unit world" where
  "steppingBack = worldOn (\<lambda>i. if i < 2 then 5000000 else if i = 2 then 6000000 else 4000000) ()"

section \<open>Calls in a row on one bucket\<close>

text \<open>
  \<open>calls g ns w\<close> runs \<open>GenMultiIDs\<close> once for each count of \<open>ns\<close>, one call after
  the other in the same world, and collects what the calls returned.
  \<open>chunks f lo ns\<close> cuts the numbers from \<open>lo\<close> on into consecutive runs of the
  lengths \<open>ns\<close>, and maps \<open>f\<close> over them.
  A world is \<open>quiet\<close> for a generator on the in-memory store when the generator has a
  single server id, the clock stands still within the millisecond \<open>T\<close>, and the
  entropy source never fails.
\<close>

fun calls :: "'s generator \<Rightarrow> int64 list \<Rightarrow> 's world \<Rightarrow> int64 list outcome list \<times> 's world" where
  "calls g [] w = ([], w)"
| "calls g (n # ns) w =
     (case GenMultiIDs g n w of (r, w') \<Rightarrow>
     (case calls g ns w' of (rs, w'') \<Rightarrow> (r # rs, w'')))"

fun chunks :: "(nat \<Rightarrow> int64) \<Rightarrow> nat \<Rightarrow> int64 list \<Rightarrow> int64 list list" where
  "chunks f lo [] = []"
| "chunks f lo (n # ns) = map f [lo ..< lo + nat (sint n)] # chunks f (lo + nat (sint n)) ns"

definition quiet :: "redis generator \<Rightarrow> int64 \<Rightarrow> int64 \<Rightarrow> redis world \<Rightarrow> bool" where
  "quiet g sid T w \<longleftrightarrow>
     cli g = redisClient \<and> serverIDs g = [sid] \<and>
     (\<forall>i. unixNano w i = unixNano w 0) \<and> go_div (unixNano w 0) 1000000 = T \<and>
     (\<forall>i. \<not> isl (randReader w i))"

section \<open>Well-formed fields\<close>

text \<open>The four fields fit their places: seconds in 32 bits, milliseconds below 1000, the
  counter in 8 bits, the server id in 14 bits.\<close>

definition fields_ok :: "int64 \<Rightarrow> int64 \<Rightarrow> int64 \<Rightarrow> int64 \<Rightarrow> bool" where
  "fields_ok s m i d \<longleftrightarrow>
     0 \<le> sint s \<and> sint s < 4294967296 \<and> 0 \<le> sint m \<and> sint m < 1000 \<and>
     0 \<le> sint i \<and> sint i < 256 \<and> 0 \<le> sint d \<and> sint d < 16384"

section \<open>Invariants of the loop\<close>

text \<open>
  \<open>books n\<close>: the identifiers produced so far and the number still owed add up to
  \<open>n\<close>, and nothing negative is owed.
\<close>

definition books :: "int \<Rightarrow> 's config \<Rightarrow> bool" where
  "books n c \<longleftrightarrow>
     (case c of (idx, (leftNum, lastMs, ids), w) \<Rightarrow>
        0 \<le> sint leftNum \<and> int (length ids) + sint leftNum = n)"

text \<open>
  \<open>issued sid ms x\<close>: the identifier \<open>x\<close> was packed from the millisecond \<open>ms\<close>, which
  is not before the epoch and whose seconds fit 32 bits, some counter value below 256,
  and the server id \<open>sid\<close>, which fits 14 bits.
\<close>

definition issued :: "int64 \<Rightarrow> int64 \<Rightarrow> int64 \<Rightarrow> bool" where
  "issued sid ms x \<longleftrightarrow>
     0 \<le> sint ms \<and> sint ms < 4294967296000 \<and> 0 \<le> sint sid \<and> sint sid < 16384 \<and>
     (\<exists>i. 0 \<le> sint i \<and> sint i < 256 \<and> x = mkID (go_div ms 1000) (go_mod ms 1000) i sid)"


text \<open>
  With a clock that never steps back, \<open>lastMs\<close> only grows and stays far from the
  largest \<open>int64\<close>, the identifiers produced are pairwise distinct, and each was issued
  from a millisecond not after \<open>lastMs\<close>.
\<close>

definition steady_inv :: "int64 \<Rightarrow> 's config \<Rightarrow> bool" where
  "steady_inv sid c \<longleftrightarrow>
     (case c of (idx, (leftNum, lastMs, ids), w) \<Rightarrow>
        clock_steady (unixNano w) \<and> 0 \<le> sint lastMs \<and> sint lastMs \<le> 9223372036854 + int idx \<and>
        idx \<le> maxTimeAddrTimes \<and> distinct ids \<and>
        (\<forall>x\<in>set ids. \<exists>ms. sint ms \<le> sint lastMs \<and> issued sid ms x))"

text \<open>
  A client keeps count when its store holds, for every key, a number \<open>held\<close> such that
  a successful increment by a positive delta answers with a total whose range of
  \<open>delta\<close> values starts at or above what was held for the key, the key then holds at
  least the total, and no key ever holds less than before, by an increment or by an
  expiry. This is the store the generator asks for: every caller gets a range of its own.
\<close>

definition counter_store :: "'s client \<Rightarrow> ('s \<Rightarrow> string \<Rightarrow> int) \<Rightarrow> bool" where
  "counter_store c held \<longleftrightarrow>
     (\<forall>key delta s r s'. IncrBy c key delta s = (Inr r, s') \<and> 0 < sint delta \<longrightarrow>
        held s key \<le> sint r - sint delta \<and> sint r \<le> held s' key \<and>
        (\<forall>k. held s k \<le> held s' k)) \<and>
     (\<forall>key ttl s k. held s k \<le> held (Expire c key ttl s) k)"

text \<open>
  On such a store, with a clock that is never before the epoch: the identifiers
  produced are pairwise distinct, and each was issued from a millisecond with a counter
  value below what the store now holds for the bucket of that millisecond.
\<close>

definition issuedAt :: "int64 \<Rightarrow> int64 \<Rightarrow> int64 \<Rightarrow> int64 \<Rightarrow> bool" where
  "issuedAt sid ms i x \<longleftrightarrow>
     0 \<le> sint ms \<and> sint ms < 4294967296000 \<and> 0 \<le> sint sid \<and> sint sid < 16384 \<and>
     0 \<le> sint i \<and> sint i < 256 \<and> x = mkID (go_div ms 1000) (go_mod ms 1000) i sid"

definition store_inv :: "('s \<Rightarrow> string \<Rightarrow> int) \<Rightarrow> string \<Rightarrow> int64 \<Rightarrow> 's config \<Rightarrow> bool" where
  "store_inv held ns sid c \<longleftrightarrow>
     (case c of (idx, (leftNum, lastMs, ids), w) \<Rightarrow>
        clock_after_epoch (unixNano w) \<and> (0 \<le> sint lastMs \<or> sint lastMs < - 1000) \<and>
        distinct ids \<and>
        (\<forall>x\<in>set ids. \<exists>ms i. issuedAt sid ms i x \<and>
            sint i < held (store w) (counterKey ns sid ms)))"

section \<open>Facts about 64-bit integers and single attempts\<close>

lemma sint_of_int64:
  assumes "- (2 ^ 63) \<le> k" "k < 2 ^ 63"
  shows "sint (word_of_int k :: int64) = k"
  using assms by (simp add: sint_sbintrunc' signed_take_bit_int_eq_self)

lemma sint_uint64:
  fixes w :: int64
  shows "sint w = (if uint w < 2 ^ 63 then uint w else uint w - 2 ^ 64)"
proof -
  have lo: "0 \<le> uint w" by simp
  have hi: "uint w < 2 ^ 64" using uint_lt2p [of w] by simp
  have p: "(0::int) < 2 ^ 63" "(2::int) ^ 64 = 2 ^ 63 + 2 ^ 63" by simp_all
  show ?thesis
  proof (cases "uint w < 2 ^ 63")
    case True
    have "sint (word_of_int (uint w) :: int64) = uint w"
      by (rule sint_of_int64) (use lo hi p True in linarith)+
    with True show ?thesis by simp
  next
    case False
    have "sint (word_of_int (uint w - 2 ^ 64) :: int64) = uint w - 2 ^ 64"
      by (rule sint_of_int64) (use lo hi p False in linarith)+
    moreover have "(word_of_int (uint w - 2 ^ 64) :: int64) = w"
      by simp
    ultimately have "sint w = uint w - 2 ^ 64"
      by (simp only:)
    then show ?thesis using False by (simp only: if_False)
  qed
qed

lemma and_mask32_iff:
  fixes x :: int64
  shows "(x AND 0xFFFFFFFF) = x \<longleftrightarrow> 0 \<le> sint x \<and> sint x < 2 ^ 32"
proof -
  have m: "(0xFFFFFFFF :: int64) = mask 32"
    by (simp add: mask_eq_exp_minus_1)
  have b: "0 \<le> uint x" "uint x < 2 ^ 64"
    using uint_lt2p [of x] by simp_all
  show ?thesis
    unfolding m mask_eq_iff using b by (auto simp: sint_uint64)
qed

lemma and_mask14_iff:
  fixes x :: int64
  shows "(x AND 0x3FFF) = x \<longleftrightarrow> 0 \<le> sint x \<and> sint x < 2 ^ 14"
proof -
  have m: "(0x3FFF :: int64) = mask 14"
    by (simp add: mask_eq_exp_minus_1)
  have b: "0 \<le> uint x" "uint x < 2 ^ 64"
    using uint_lt2p [of x] by simp_all
  show ?thesis
    unfolding m mask_eq_iff using b by (auto simp: sint_uint64)
qed

lemma sint_sub64:
  fixes a b :: int64
  assumes "- (2 ^ 63) \<le> sint a - sint b" "sint a - sint b < 2 ^ 63"
  shows "sint (a - b) = sint a - sint b"
proof -
  have "a - b = word_of_int (sint a - sint b)" by simp
  then show ?thesis using assms sint_of_int64 by metis
qed

lemma sint_add64:
  fixes a b :: int64
  assumes "- (2 ^ 63) \<le> sint a + sint b" "sint a + sint b < 2 ^ 63"
  shows "sint (a + b) = sint a + sint b"
proof -
  have "a + b = word_of_int (sint a + sint b)" by simp
  then show ?thesis using assms sint_of_int64 by metis
qed

lemma maxCounter_eq: "maxCounter = 255"
  by (simp add: maxCounter_def)

lemma word_of_nat_sint:
  fixes i :: int64
  assumes "0 \<le> sint i"
  shows "word_of_nat (nat (sint i)) = i"
  using assms by simp

lemma emit_eq:
  assumes "0 \<le> sint i" "sint i \<le> sint e"
  shows "emit s m sid i e ids =
         ids @ map (\<lambda>k. mkID s m (word_of_nat k) sid) [nat (sint i) ..< nat (sint e)]"
  using assms
proof (induction s m sid i e ids rule: emit.induct)
  case (1 seconds millis serverID i e ids)
  show ?case
  proof (cases "i <s e")
    case True
    then have lt: "sint i < sint e" by (simp add: word_sless_alt)
    have s1: "sint (i + 1) = sint i + 1" using True by (rule sint_succ_less)
    have ih: "emit seconds millis serverID (i + 1) e (ids @ [mkID seconds millis i serverID]) =
          (ids @ [mkID seconds millis i serverID]) @
          map (\<lambda>k. mkID seconds millis (word_of_nat k) serverID) [nat (sint (i + 1)) ..< nat (sint e)]"
      using "1.IH" [OF True] "1.prems" lt s1 by simp
    have n1: "nat (sint (i + 1)) = Suc (nat (sint i))"
      using s1 "1.prems" by simp
    have up: "[nat (sint i) ..< nat (sint e)] = nat (sint i) # [Suc (nat (sint i)) ..< nat (sint e)]"
      using lt "1.prems" by (intro upt_conv_Cons) simp
    have wi: "(word_of_nat (nat (sint i)) :: int64) = i"
      using "1.prems" by simp
    show ?thesis
      using True ih by (subst emit.simps) (simp add: n1 up wi)
  next
    case False
    then have "sint e \<le> sint i" by (simp add: word_sless_alt)
    with "1.prems" have "sint i = sint e" by simp
    then show ?thesis using False by (subst emit.simps) simp
  qed
qed

lemma pickMS_world:
  "snd (pickMS lastMs w) = w\<lparr>unixNano := (\<lambda>i. unixNano w (Suc (Suc i)))\<rparr>"
  by (simp add: pickMS_def timeMS_def Let_def)

lemma attempt_Inr:
  assumes a: "attempt g sid (leftNum, lastMs, ids) w = (Inr (leftNum', lastMs', ids'), w')"
    and pos: "0 <s leftNum"
  shows "lastMs' = fst (pickMS lastMs w) \<and>
     (leftNum' = leftNum \<and> ids' = ids \<or>
      (\<exists>start n. 0 < n \<and> start + n \<le> 256 \<and>
         ids' = ids @ map (\<lambda>k. mkID (go_div lastMs' 1000) (go_mod lastMs' 1000) (word_of_nat k) sid)
                        [start ..< start + n] \<and>
         sint leftNum' = sint leftNum - int n \<and> 0 \<le> sint leftNum' \<and>
         (go_div lastMs' 1000 AND 0xFFFFFFFF) = go_div lastMs' 1000 \<and>
         (sid AND 0x3FFF) = sid))"
proof -
  obtain ms w1 where p: "pickMS lastMs w = (ms, w1)" by (cases "pickMS lastMs w")
  obtain r w2 where i: "incrBy g (counterKey (namespace g) sid ms) leftNum w1 = (r, w2)"
    by (cases "incrBy g (counterKey (namespace g) sid ms) leftNum w1")
  from a p i obtain counter where r: "r = Inr counter"
    by (cases r) (simp_all add: attempt_def)
  define start where "start = counter - leftNum"
  have lpos: "0 < sint leftNum" using pos by (simp add: word_sless_alt)
  show ?thesis
  proof (cases "maxCounter <s start")
    case True
    with a p i r show ?thesis
      by (simp add: attempt_def Let_def start_def)
  next
    case False
    note nskip = this
    show ?thesis
    proof (cases "counter <s leftNum")
      case True
      with a p i r nskip show ?thesis
        by (simp add: attempt_def Let_def start_def)
    next
      case False
      then have cge: "sint leftNum \<le> sint counter" by (simp add: word_sless_alt)
      have chi: "sint counter < 2 ^ 63" using sint_lt [of counter] by simp
      have st: "sint start = sint counter - sint leftNum"
        unfolding start_def using cge lpos chi by (intro sint_sub64) simp_all
      have st255: "sint start \<le> 255" using nskip by (simp add: word_sless_alt maxCounter_eq)
      have st0: "0 \<le> sint start" using st cge by simp
      define e where "e = (if maxCounter <s counter then maxCounter + 1 else counter)"
      define l' where "l' = (if maxCounter <s counter then counter - maxCounter - 1 else 0)"
      have e: "sint e = (if 255 < sint counter then 256 else sint counter)"
        by (simp add: e_def word_sless_alt maxCounter_eq)
      have "counter - maxCounter - 1 = counter - 256" by (simp add: maxCounter_eq)
      moreover have "255 < sint counter \<Longrightarrow> sint (counter - 256) = sint counter - sint (256 :: int64)"
        using chi by (intro sint_sub64) simp_all
      ultimately have l': "sint l' = (if 255 < sint counter then sint counter - 256 else 0)"
        by (simp add: l'_def word_sless_alt maxCounter_eq)
      from a p i r nskip False
      have res: "(go_div ms 1000 AND 0xFFFFFFFF) = go_div ms 1000" "(sid AND 0x3FFF) = sid"
        "leftNum' = l'" "lastMs' = ms"
        "ids' = emit (go_div ms 1000) (go_mod ms 1000) sid start e ids"
        by (auto simp: attempt_def Let_def start_def e_def l'_def split: if_splits)
      have se: "sint start \<le> sint e" using e st st0 st255 lpos by (auto split: if_splits)
      have em: "ids' = ids @ map (\<lambda>k. mkID (go_div ms 1000) (go_mod ms 1000) (word_of_nat k) sid)
                   [nat (sint start) ..< nat (sint e)]"
        unfolding res(5) using st0 se by (rule emit_eq)
      define n where "n = nat (sint e) - nat (sint start)"
      have n: "nat (sint e) = nat (sint start) + n" using se st0 by (simp add: n_def)
      have npos: "0 < n" using e st st0 st255 lpos by (auto simp: n_def split: if_splits)
      have le: "nat (sint start) + n \<le> 256" using e n st0 by (auto split: if_splits)
      have ln: "sint l' = sint leftNum - int n"
        using e l' st st0 se by (auto simp: n_def split: if_splits)
      have l0: "0 \<le> sint l'" using l' by (auto split: if_splits)
      show ?thesis
        using p res em npos le ln l0 unfolding n
        by (intro conjI disjI2 exI [of _ "nat (sint start)"] exI [of _ n]) simp_all
    qed
  qed
qed

section \<open>What a call sends to the store\<close>

lemma incrBy_wire:
  "wire (snd (incrBy g key num w)) = wire w @ [INCRBY key num]"
  by (simp add: incrBy_def split: prod.splits)

lemma pickMS_wire: "wire (snd (pickMS lastMs w)) = wire w"
  by (simp add: pickMS_world)

lemma attempt_wire:
  "\<exists>rest. wire (snd (attempt g sid (leftNum, lastMs, ids) w)) =
       wire w @ INCRBY (counterKey (namespace g) sid (fst (pickMS lastMs w))) leftNum # rest \<and>
     (rest = [] \<or> rest = [EXPIRE (counterKey (namespace g) sid (fst (pickMS lastMs w))) counterKeyExpiration])"
proof -
  obtain ms w1 where p: "pickMS lastMs w = (ms, w1)" by (cases "pickMS lastMs w")
  obtain r w2 where i: "incrBy g (counterKey (namespace g) sid ms) leftNum w1 = (r, w2)"
    by (cases "incrBy g (counterKey (namespace g) sid ms) leftNum w1")
  have w1: "wire w1 = wire w" using pickMS_wire [of lastMs w] p by simp
  have w2: "wire w2 = wire w @ [INCRBY (counterKey (namespace g) sid ms) leftNum]"
    using incrBy_wire [of g "counterKey (namespace g) sid ms" leftNum w1] i w1 by simp
  show ?thesis
    using p i w2
    by (cases r) (auto simp: attempt_def Let_def expire_def)
qed

lemma loop_stop:
  assumes "\<not> (0 <s fst v \<and> idx < maxTimeAddrTimes)"
  shows "loop g sid idx v w = (Inr v, w)"
  using assms by (subst loop.simps) auto

lemma loop_step_Inl:
  assumes "0 <s fst v" "idx < maxTimeAddrTimes" "attempt g sid v w = (Inl err, w')"
  shows "loop g sid idx v w = (Inl err, w')"
  using assms by (subst loop.simps) simp

lemma loop_step_Inr:
  assumes "0 <s fst v" "idx < maxTimeAddrTimes" "attempt g sid v w = (Inr v', w')"
  shows "loop g sid idx v w = loop g sid (Suc idx) v' w'"
  using assms by (subst loop.simps) simp

lemma loop_wire:
  "\<exists>cmds. wire (snd (loop g sid idx v w)) = wire w @ cmds \<and>
     (\<forall>c\<in>set cmds. \<exists>ms. keyOf c = counterKey (namespace g) sid ms) \<and>
     length (filter isIncr cmds) \<le> maxTimeAddrTimes - idx"
proof (induction g sid idx v w rule: loop.induct)
  case (1 g sid idx v w)
  show ?case
  proof (cases "0 <s fst v \<and> idx < maxTimeAddrTimes")
    case False
    then show ?thesis by (simp add: loop_stop)
  next
    case True
    obtain leftNum lastMs ids where v: "v = (leftNum, lastMs, ids)" by (cases v)
    obtain r w' where a: "attempt g sid v w = (r, w')" by (cases "attempt g sid v w")
    from attempt_wire [of g sid leftNum lastMs ids w] a v
    obtain rest where rest: "wire w' = wire w @ INCRBY (counterKey (namespace g) sid (fst (pickMS lastMs w))) leftNum # rest"
      "rest = [] \<or> rest = [EXPIRE (counterKey (namespace g) sid (fst (pickMS lastMs w))) counterKeyExpiration]"
      by auto
    show ?thesis
    proof (cases r)
      case (Inl err)
      have "loop g sid idx v w = (Inl err, w')"
        using True a Inl by (simp add: loop_step_Inl)
      moreover have "length (filter isIncr (INCRBY (counterKey (namespace g) sid (fst (pickMS lastMs w))) leftNum # rest)) \<le> maxTimeAddrTimes - idx"
        using rest(2) True by auto
      ultimately show ?thesis
        using rest by (intro exI [of _ "INCRBY (counterKey (namespace g) sid (fst (pickMS lastMs w))) leftNum # rest"]) auto
    next
      case (Inr v')
      have l: "loop g sid idx v w = loop g sid (Suc idx) v' w'"
        using True a Inr by (simp add: loop_step_Inr)
      from "1.IH" [OF True a [symmetric] Inr]
      obtain cmds where c: "wire (snd (loop g sid (Suc idx) v' w')) = wire w' @ cmds"
        "\<forall>c\<in>set cmds. \<exists>ms. keyOf c = counterKey (namespace g) sid ms"
        "length (filter isIncr cmds) \<le> maxTimeAddrTimes - Suc idx"
        by auto
      have "length (filter isIncr ((INCRBY (counterKey (namespace g) sid (fst (pickMS lastMs w))) leftNum # rest) @ cmds)) \<le> maxTimeAddrTimes - idx"
        using rest(2) True c(3) by auto
      then show ?thesis
        using rest c l
        by (intro exI [of _ "(INCRBY (counterKey (namespace g) sid (fst (pickMS lastMs w))) leftNum # rest) @ cmds"]) auto
    qed
  qed
qed

lemma pickServerID_Return:
  assumes "pickServerID g w = (Return sid, w1)"
  shows "sid \<in> set (serverIDs g) \<and> w1 = w\<lparr>randReader := (\<lambda>i. randReader w (Suc i))\<rparr>"
  using assms
  by (auto simp: pickServerID_def split: if_splits sum.splits)

lemma pickServerID_wire: "wire (snd (pickServerID g w)) = wire w"
  by (simp add: pickServerID_def split: sum.splits)

lemma GenMultiIDs_wire:
  "\<exists>cmds. wire (snd (GenMultiIDs g counts w)) = wire w @ cmds \<and>
     (\<forall>c\<in>set cmds. \<exists>sid\<in>set (serverIDs g). \<exists>ms. keyOf c = counterKey (namespace g) sid ms) \<and>
     length (filter isIncr cmds) \<le> maxTimeAddrTimes"
proof (cases "counts <s 0")
  case True
  then show ?thesis by (simp add: GenMultiIDs_def)
next
  case False
  obtain r w1 where p: "pickServerID g w = (r, w1)" by (cases "pickServerID g w")
  have w1: "wire w1 = wire w" using pickServerID_wire [of g w] p by simp
  show ?thesis
  proof (cases r)
    case (Return sid)
    then have sid: "sid \<in> set (serverIDs g)" using p pickServerID_Return by blast
    obtain cmds where c: "wire (snd (loop g sid 0 (counts, 0, []) w1)) = wire w1 @ cmds"
        "\<forall>c\<in>set cmds. \<exists>ms. keyOf c = counterKey (namespace g) sid ms"
        "length (filter isIncr cmds) \<le> maxTimeAddrTimes - 0"
      using loop_wire [of g sid 0 "(counts, 0, [])" w1] by blast
    have "wire (snd (GenMultiIDs g counts w)) = wire (snd (loop g sid 0 (counts, 0, []) w1))"
      using False p Return
      by (simp add: GenMultiIDs_def split: prod.splits sum.splits)
    then show ?thesis
      using c w1 sid by (intro exI [of _ cmds]) (simp, blast)
  next
    case (Failure err)
    then show ?thesis using False p w1 by (simp add: GenMultiIDs_def)
  next
    case (Panic pn)
    then show ?thesis using False p w1 by (simp add: GenMultiIDs_def)
  qed
qed

text \<open>
  C8 (as amended). Every command a call of \<open>GenMultiIDs\<close> sends to the store, the
  increments and the expiries alike, is keyed by the literal \<open>id_generator\<close>, the
  namespace, a server id of the pool and a millisecond, in decimal, joined by colons:
  \<open>id_generator:<namespace>:<serverId>:<epochMillis>\<close>.
\<close>

theorem bucket_key_sent:
  "\<exists>cmds. wire (snd (GenMultiIDs g counts w)) = wire w @ cmds \<and>
     (\<forall>c\<in>set cmds. \<exists>serverID\<in>set (serverIDs g). \<exists>ms.
        keyOf c = ''id_generator:'' @ namespace g @ '':'' @ fmt_int64 serverID @ '':'' @ fmt_int64 ms)"
proof -
  obtain cmds where c: "wire (snd (GenMultiIDs g counts w)) = wire w @ cmds"
    "\<forall>c\<in>set cmds. \<exists>sid\<in>set (serverIDs g). \<exists>ms. keyOf c = counterKey (namespace g) sid ms"
    using GenMultiIDs_wire [of g counts w] by blast
  show ?thesis
    using c by (intro exI [of _ cmds]) (simp add: counterKey_def)
qed

theorem bucket_key_counterexample:
  "counterKey ''ns'' 7 5 \<noteq> ''ns:7:5''"
  by (simp add: counterKey_def)

section \<open>Runs, bookkeeping, and the single identifier\<close>

lemma reaches_prepend:
  assumes "reaches g sid (Suc idx, v1, w1) c'"
    and "0 <s fst v" "idx < maxTimeAddrTimes" "attempt g sid v w = (Inr v1, w1)"
  shows "reaches g sid (idx, v, w) c'"
  using assms
proof (induction rule: reaches.induct)
  case reaches_init
  then show ?case
    using reaches.intros(2) [OF reaches.intros(1)] by blast
next
  case (reaches_step idx' v' w' v'' w'')
  then show ?case
    using reaches.intros(2) by blast
qed

lemma loop_reaches_Inr:
  assumes "loop g sid idx v w = (Inr v', w')"
  shows "\<exists>idx'. reaches g sid (idx, v, w) (idx', v', w') \<and> \<not> (0 <s fst v' \<and> idx' < maxTimeAddrTimes)"
  using assms
proof (induction g sid idx v w rule: loop.induct)
  case (1 g sid idx v w)
  show ?case
  proof (cases "0 <s fst v \<and> idx < maxTimeAddrTimes")
    case False
    then have "v' = v" "w' = w" using "1.prems" by (simp_all add: loop_stop)
    with False show ?thesis by (intro exI [of _ idx]) (simp add: reaches_init)
  next
    case True
    obtain r w1 where a: "attempt g sid v w = (r, w1)" by (cases "attempt g sid v w")
    show ?thesis
    proof (cases r)
      case (Inl err)
      then show ?thesis using True a "1.prems" by (simp add: loop_step_Inl)
    next
      case (Inr v1)
      then have "loop g sid (Suc idx) v1 w1 = (Inr v', w')"
        using True a "1.prems" by (simp add: loop_step_Inr)
      from "1.IH" [OF True a [symmetric] Inr this]
      obtain idx' where "reaches g sid (Suc idx, v1, w1) (idx', v', w')"
        "\<not> (0 <s fst v' \<and> idx' < maxTimeAddrTimes)" by blast
      then show ?thesis
        using reaches_prepend [of g sid idx v1 w1 "(idx', v', w')" v w] True a Inr by blast
    qed
  qed
qed

lemma loop_reaches_Inl:
  assumes "loop g sid idx v w = (Inl err, w')"
  shows "\<exists>idx' v'' w''. reaches g sid (idx, v, w) (idx', v'', w'') \<and>
          0 <s fst v'' \<and> idx' < maxTimeAddrTimes \<and> attempt g sid v'' w'' = (Inl err, w')"
  using assms
proof (induction g sid idx v w rule: loop.induct)
  case (1 g sid idx v w)
  show ?case
  proof (cases "0 <s fst v \<and> idx < maxTimeAddrTimes")
    case False
    then show ?thesis using "1.prems" by (simp add: loop_stop)
  next
    case True
    obtain r w1 where a: "attempt g sid v w = (r, w1)" by (cases "attempt g sid v w")
    show ?thesis
    proof (cases r)
      case (Inl e)
      then have "e = err" "w1 = w'" using True a "1.prems" by (simp_all add: loop_step_Inl)
      then show ?thesis using True a Inl reaches_init [of g sid "(idx, v, w)"] by blast
    next
      case (Inr v1)
      then have "loop g sid (Suc idx) v1 w1 = (Inl err, w')"
        using True a "1.prems" by (simp add: loop_step_Inr)
      from "1.IH" [OF True a [symmetric] Inr this]
      obtain idx' v'' w'' where r: "reaches g sid (Suc idx, v1, w1) (idx', v'', w'')"
        "0 <s fst v''" "idx' < maxTimeAddrTimes" "attempt g sid v'' w'' = (Inl err, w')" by blast
      have "reaches g sid (idx, v, w) (idx', v'', w'')"
        using reaches_prepend [OF r(1), of v w] True a Inr by simp
      then show ?thesis using r by blast
    qed
  qed
qed

lemma reaches_loop:
  assumes "reaches g sid c c'"
  shows "loop g sid (fst c) (fst (snd c)) (snd (snd c)) = loop g sid (fst c') (fst (snd c')) (snd (snd c'))"
  using assms
proof (induction rule: reaches.induct)
  case reaches_init
  show ?case by simp
next
  case (reaches_step idx v w v' w')
  then show ?case by (simp add: loop_step_Inr)
qed

lemma reaches_invariant:
  assumes "reaches g sid c c'" and "P c"
    and "\<And>idx v w v' w'. P (idx, v, w) \<Longrightarrow> 0 <s fst v \<Longrightarrow> idx < maxTimeAddrTimes \<Longrightarrow>
           attempt g sid v w = (Inr v', w') \<Longrightarrow> P (Suc idx, v', w')"
  shows "P c'"
  using assms by (induction rule: reaches.induct) blast+

text \<open>The loop keeps the books: what was produced and what is still owed add up to the request.\<close>

lemma books_step:
  assumes "books n (idx, v, w)" "0 <s fst v" "attempt g sid v w = (Inr v', w')"
  shows "books n (Suc idx, v', w')"
proof -
  obtain leftNum lastMs ids where v: "v = (leftNum, lastMs, ids)" by (cases v)
  obtain leftNum' lastMs' ids' where v': "v' = (leftNum', lastMs', ids')" by (cases v')
  from attempt_Inr [of g sid leftNum lastMs ids w leftNum' lastMs' ids' w'] assms v v'
  show ?thesis
    by (auto simp: books_def)
qed

lemma reaches_books:
  assumes "reaches g sid c c'" "books n c"
  shows "books n c'"
  using assms(1,2) by (rule reaches_invariant) (rule books_step)

lemma GenMultiIDs_Return:
  assumes "GenMultiIDs g counts w = (Return ids, w')"
  shows "\<not> counts <s 0 \<and> (\<exists>sid w1 lastMs. pickServerID g w = (Return sid, w1) \<and>
           loop g sid 0 (counts, 0, []) w1 = (Inr (0, lastMs, ids), w') \<and>
           sint counts \<le> int (length ids))"
  using assms
  by (auto simp: GenMultiIDs_def split: if_splits prod.splits outcome.splits sum.splits)

lemma GenMultiIDs_length:
  assumes "GenMultiIDs g counts w = (Return ids, w')"
  shows "int (length ids) = sint counts"
proof -
  from GenMultiIDs_Return [OF assms]
  obtain sid w1 lastMs where n: "\<not> counts <s 0"
    and l: "loop g sid 0 (counts, 0, []) w1 = (Inr (0, lastMs, ids), w')"
    by blast
  from loop_reaches_Inr [OF l] obtain idx' where
    r: "reaches g sid (0, (counts, 0, []), w1) (idx', (0, lastMs, ids), w')" by blast
  have "books (sint counts) (0, (counts, 0, []), w1)"
    using n by (simp add: books_def word_sless_alt)
  from reaches_books [OF r this] show ?thesis
    by (simp add: books_def)
qed

text \<open>
  C7. \<open>GenID\<close> returns an identifier exactly when \<open>GenMultiIDs\<close> asked for one
  identifier returns a sequence, and then it is the first element of that sequence;
  it returns an error exactly when \<open>GenMultiIDs\<close> does (the same error, wrapped), and
  it leaves the world as \<open>GenMultiIDs\<close> leaves it.
\<close>

theorem GenID_first_of_one:
  "(GenID g w = (Return x, w') \<longleftrightarrow>
      (\<exists>ids. GenMultiIDs g 1 w = (Return ids, w') \<and> ids \<noteq> [] \<and> x = hd ids)) \<and>
   (GenID g w = (Failure err, w') \<longleftrightarrow>
      (\<exists>e. GenMultiIDs g 1 w = (Failure e, w') \<and> err = ErrGenID e))"
proof -
  obtain r w1 where m: "GenMultiIDs g 1 w = (r, w1)" by (cases "GenMultiIDs g 1 w")
  show ?thesis
  proof (cases r)
    case (Return ids)
    with m have "int (length ids) = sint (1 :: int64)" by (simp add: GenMultiIDs_length)
    then obtain y where "ids = [y]" by (cases ids) auto
    with m Return show ?thesis by (auto simp: GenID_def)
  next
    case (Failure e)
    with m show ?thesis by (auto simp: GenID_def)
  next
    case (Panic p)
    with m show ?thesis by (auto simp: GenID_def)
  qed
qed

section \<open>Zero and negative requests\<close>

lemma GenMultiIDs_zero:
  "GenMultiIDs g 0 w =
     (case pickServerID g w of
        (Return sid, w1) \<Rightarrow> (Return [], w1)
      | (Failure err, w1) \<Rightarrow> (Failure (ErrPickServerID err), w1)
      | (Panic p, w1) \<Rightarrow> (Panic p, w1))"
  by (simp add: GenMultiIDs_def loop_stop split: prod.splits outcome.splits)

text \<open>
  C9 (as amended). Asked for zero identifiers, \<open>GenMultiIDs\<close> sends nothing to the
  store, whatever else happens, and, once a server id is picked, returns the empty
  sequence and no error.
  Asked for a negative number, it sends nothing to the store either, but it does not
  return: allocating the result slice with a negative capacity panics, before a
  server id is picked, and the world is left as it was.
\<close>

theorem zero_and_negative_counts:
  "(pickServerID g w = (Return sid, w1) \<longrightarrow>
      GenMultiIDs g 0 w = (Return [], w1) \<and> wire w1 = wire w \<and> store w1 = store w) \<and>
   wire (snd (GenMultiIDs g 0 w)) = wire w \<and> store (snd (GenMultiIDs g 0 w)) = store w \<and>
   (counts <s 0 \<longrightarrow> GenMultiIDs g counts w = (Panic PanicMakesliceCap, w))"
proof (intro conjI impI)
  assume p: "pickServerID g w = (Return sid, w1)"
  then show "GenMultiIDs g 0 w = (Return [], w1)" by (simp add: GenMultiIDs_zero)
  from pickServerID_Return [OF p] show "wire w1 = wire w" "store w1 = store w" by simp_all
next
  show "wire (snd (GenMultiIDs g 0 w)) = wire w"
    by (simp add: GenMultiIDs_zero pickServerID_def split: sum.splits)
  show "store (snd (GenMultiIDs g 0 w)) = store w"
    by (simp add: GenMultiIDs_zero pickServerID_def split: sum.splits)
next
  assume "counts <s 0"
  then show "GenMultiIDs g counts w = (Panic PanicMakesliceCap, w)" by (simp add: GenMultiIDs_def)
qed

theorem zero_and_negative_counts_witness:
  "fst (GenMultiIDs g7 0 (frozen 5000000)) = Return [] \<and>
   wire (snd (GenMultiIDs g7 0 (frozen 5000000))) = [] \<and>
   GenMultiIDs g7 (- 5) (frozen 5000000) = (Panic PanicMakesliceCap, frozen 5000000)"
proof -
  have p: "pickServerID g7 (frozen 5000000) =
      (Return 7, (frozen 5000000)\<lparr>randReader := (\<lambda>i. randReader (frozen 5000000) (Suc i))\<rparr>)"
    by (simp add: pickServerID_def g7_def frozen_def)
  have n: "(- 5 :: int64) <s 0" by (simp add: word_sless_alt)
  show ?thesis
    using zero_and_negative_counts [of g7 "frozen 5000000" 7
        "(frozen 5000000)\<lparr>randReader := (\<lambda>i. randReader (frozen 5000000) (Suc i))\<rparr>" "- 5"] p n
    by (simp add: frozen_def)
qed

theorem negative_counts_counterexample:
  "fst (GenMultiIDs g7 (- 1) (frozen 5000000)) = Panic PanicMakesliceCap \<and>
   fst (GenMultiIDs g7 (- 1) (frozen 5000000)) \<noteq> Failure (ErrNotEnough ''ns'' (- 1) 0 0)"
  by (simp add: GenMultiIDs_def word_sless_alt)

section \<open>Attempts that produce identifiers\<close>

lemma loop_unroll:
  "loop g sid idx v w =
     (if 0 <s fst v \<and> idx < maxTimeAddrTimes then
        (if isl (fst (attempt g sid v w)) then (Inl (projl (fst (attempt g sid v w))), snd (attempt g sid v w))
         else loop g sid (Suc idx) (projr (fst (attempt g sid v w))) (snd (attempt g sid v w)))
      else (Inr v, w))"
  by (subst loop.simps) (auto split: prod.splits sum.splits)

lemma go_div_nonneg:
  assumes "0 \<le> sint a" "0 < sint b"
  shows "sint (go_div a b) = sint a div sint b"
proof -
  have d: "sint a sdiv sint b = sint a div sint b"
    using assms by (simp add: signed_divide_int_def sgn_if)
  have "0 \<le> sint a div sint b" using assms by (simp add: pos_imp_zdiv_nonneg_iff)
  moreover have "sint a div sint b \<le> sint a"
    using assms int_div_le_self [of "sint a" "sint b"] by (cases "sint a = 0") auto
  moreover have "sint a < 2 ^ 63" using sint_lt [of a] by simp
  ultimately show ?thesis
    unfolding go_div_def d by (intro sint_of_int64) linarith+
qed

lemma go_mod_nonneg:
  assumes "0 \<le> sint a" "0 < sint b"
  shows "sint (go_mod a b) = sint a mod sint b"
proof -
  have d: "sint a smod sint b = sint a mod sint b"
    using assms by (simp add: signed_modulo_int_def sgn_if)
  have "0 \<le> sint a mod sint b" using assms by simp
  moreover have "sint a mod sint b < sint b"
    using assms by simp
  moreover have "sint b < 2 ^ 63" using sint_lt [of b] by simp
  ultimately show ?thesis
    unfolding go_mod_def d by (intro sint_of_int64) linarith+
qed

lemma attempt_emits:
  assumes p: "pickMS lastMs w = (ms, w1)"
    and i: "IncrBy (cli g) (counterKey (namespace g) sid ms) leftNum (store w1) = (Inr counter, s2)"
    and l: "0 < sint leftNum" "sint leftNum \<le> sint counter" "sint counter - sint leftNum \<le> 255"
    and m: "0 \<le> sint ms" "sint ms < 4294967296000"
    and s: "0 \<le> sint sid" "sint sid < 16384"
  shows "attempt g sid (leftNum, lastMs, ids) w =
     (Inr (if 255 < sint counter then counter - 256 else 0, ms,
           ids @ map (\<lambda>k. mkID (go_div ms 1000) (go_mod ms 1000) (word_of_nat k) sid)
                  [nat (sint counter - sint leftNum) ..< (if 255 < sint counter then 256 else nat (sint counter))]),
      (if counter = leftNum
       then expire g (counterKey (namespace g) sid ms)
              (w1\<lparr>store := s2, wire := wire w1 @ [INCRBY (counterKey (namespace g) sid ms) leftNum]\<rparr>)
       else w1\<lparr>store := s2, wire := wire w1 @ [INCRBY (counterKey (namespace g) sid ms) leftNum]\<rparr>))"
proof -
  define start where "start = counter - leftNum"
  have chi: "sint counter < 2 ^ 63" using sint_lt [of counter] by simp
  have st: "sint start = sint counter - sint leftNum"
    unfolding start_def using l chi by (intro sint_sub64) simp_all
  have nskip: "\<not> maxCounter <s start" using st l by (simp add: word_sless_alt maxCounter_eq)
  have nrec: "\<not> counter <s leftNum" using l by (simp add: word_sless_alt)
  have sec: "sint (go_div ms 1000) = sint ms div 1000"
    using go_div_nonneg [of ms 1000] m by simp
  have "0 \<le> sint ms div 1000" "sint ms div 1000 < 2 ^ 32" using m by simp_all
  then have secok: "(go_div ms 1000 AND 0xFFFFFFFF) = go_div ms 1000"
    using sec by (simp add: and_mask32_iff)
  have sidok: "(sid AND 0x3FFF) = sid" using s by (simp add: and_mask14_iff)
  have z: "start = 0 \<longleftrightarrow> counter = leftNum" by (simp add: start_def)
  define e where "e = (if maxCounter <s counter then maxCounter + 1 else counter)"
  have e: "sint e = (if 255 < sint counter then 256 else sint counter)"
    by (simp add: e_def word_sless_alt maxCounter_eq)
  have se: "0 \<le> sint start" "sint start \<le> sint e" using e st l by (auto split: if_splits)
  have em: "emit (go_div ms 1000) (go_mod ms 1000) sid start e ids =
      ids @ map (\<lambda>k. mkID (go_div ms 1000) (go_mod ms 1000) (word_of_nat k) sid) [nat (sint start) ..< nat (sint e)]"
    using se by (rule emit_eq)
  have ne: "nat (sint e) = (if 255 < sint counter then 256 else nat (sint counter))"
    using e by simp
  have l': "(if maxCounter <s counter then counter - maxCounter - 1 else 0) = (if 255 < sint counter then counter - 256 else 0)"
    by (simp add: word_sless_alt maxCounter_eq)
  show ?thesis
    using p i nskip nrec secok sidok em
    unfolding attempt_def incrBy_def Let_def
    by (simp add: start_def [symmetric] e_def [symmetric] z l' ne st)
qed

section \<open>The bit fields of an identifier\<close>

lemma fields_int:
  fixes A B C D :: int
  assumes "0 \<le> B" "B < 1024" "0 \<le> C" "C < 256" "0 \<le> D" "D < 16384"
  defines "k \<equiv> A * 4294967296 + B * 4194304 + C * 16384 + D"
  shows "k div 4294967296 = A" "(k div 4194304) mod 1024 = B"
    "(k div 16384) mod 256 = C" "k mod 16384 = D"
proof -
  have "k = 4294967296 * A + (B * 4194304 + C * 16384 + D)" by (simp add: k_def)
  then show "k div 4294967296 = A"
    by (rule int_div_pos_eq) (use assms in linarith)+
  have "k = 4194304 * (A * 1024 + B) + (C * 16384 + D)" by (simp add: k_def)
  then have "k div 4194304 = A * 1024 + B"
    by (rule int_div_pos_eq) (use assms in linarith)+
  moreover have "A * 1024 + B = 1024 * A + B" by simp
  then have "(A * 1024 + B) mod 1024 = B"
    by (rule int_mod_pos_eq) (use assms in linarith)+
  ultimately show "(k div 4194304) mod 1024 = B" by simp
  have "k = 16384 * (A * 262144 + B * 256 + C) + D" by (simp add: k_def)
  then have "k div 16384 = A * 262144 + B * 256 + C"
    by (rule int_div_pos_eq) (use assms in linarith)+
  moreover have "A * 262144 + B * 256 + C = 256 * (A * 1024 + B) + C" by simp
  then have "(A * 262144 + B * 256 + C) mod 256 = C"
    by (rule int_mod_pos_eq) (use assms in linarith)+
  ultimately show "(k div 16384) mod 256 = C" by simp
  have "k = 16384 * (A * 262144 + B * 256 + C) + D" by (simp add: k_def)
  then show "k mod 16384 = D"
    by (rule int_mod_pos_eq) (use assms in linarith)+
qed

lemma mkID_word_of_int:
  "mkID s m i d = word_of_int (sint s * 4294967296 + sint m * 4194304 + sint i * 16384 + sint d)"
  by (simp add: mkID_def push_bit_eq_mult)

lemma mkID_uint:
  assumes "0 \<le> sint s" "sint s < 4294967296" "0 \<le> sint m" "sint m < 1024"
    "0 \<le> sint i" "sint i < 256" "0 \<le> sint d" "sint d < 16384"
  shows "uint (mkID s m i d) = sint s * 4294967296 + sint m * 4194304 + sint i * 16384 + sint d"
proof -
  let ?k = "sint s * 4294967296 + sint m * 4194304 + sint i * 16384 + sint d"
  have "0 \<le> ?k" using assms by simp
  moreover have "?k \<le> 4294967295 * 4294967296 + 1023 * 4194304 + 255 * 16384 + 16383"
    using assms by (intro add_mono mult_right_mono) simp_all
  then have "?k < 2 ^ 64" by simp
  ultimately have "?k mod 2 ^ LENGTH(64) = ?k" by simp
  then show ?thesis
    unfolding mkID_word_of_int uint_word_of_int .
qed

lemma uint_drop_bit64: "uint (drop_bit n (x :: int64)) = uint x div 2 ^ n"
proof -
  have "uint (drop_bit n x) = drop_bit n (take_bit LENGTH(64) (uint x))"
    by (rule unsigned_drop_bit_eq)
  also have "take_bit LENGTH(64) (uint x) = uint x"
    by (rule take_bit_int_eq_self) (use uint_lt2p [of x] in simp_all)
  finally show ?thesis
    by (simp only: drop_bit_eq_div)
qed

lemma uint_and_mask64: "uint ((x :: int64) AND mask n) = uint x mod 2 ^ n"
proof -
  have "uint (x AND mask n) = uint (take_bit n x)"
    by (simp only: take_bit_eq_mask)
  also have "\<dots> = take_bit n (uint x)"
    by (rule unsigned_take_bit_eq)
  finally show ?thesis
    by (simp only: take_bit_eq_mod)
qed

lemma uint_eq_sint:
  fixes x :: int64
  assumes "0 \<le> sint x"
  shows "uint x = sint x"
  using assms uint_lt2p [of x] by (auto simp: sint_uint64 split: if_splits)

lemma decode_mkID:
  assumes "fields_ok s m i d"
  shows "secondsOf (mkID s m i d) = s" "millisOf (mkID s m i d) = m"
    "counterOf (mkID s m i d) = i" "serverOf (mkID s m i d) = d"
proof -
  have b: "0 \<le> sint s" "sint s < 4294967296" "0 \<le> sint m" "sint m < 1024"
    "0 \<le> sint i" "sint i < 256" "0 \<le> sint d" "sint d < 16384"
    using assms by (simp_all add: fields_ok_def)
  note u = mkID_uint [OF b]
  note f = fields_int [OF b(3-8), of "sint s"]
  have m: "(0x3FF :: int64) = mask 10" "(0xFF :: int64) = mask 8" "(0x3FFF :: int64) = mask 14"
    by (simp_all add: mask_eq_exp_minus_1)
  show "secondsOf (mkID s m i d) = s"
    by (rule word_uint_eqI) (simp add: secondsOf_def uint_drop_bit64 u f uint_eq_sint b)
  show "millisOf (mkID s m i d) = m"
    unfolding millisOf_def m
    by (rule word_uint_eqI) (simp add: uint_and_mask64 uint_drop_bit64 u f uint_eq_sint b)
  show "counterOf (mkID s m i d) = i"
    unfolding counterOf_def m
    by (rule word_uint_eqI) (simp add: uint_and_mask64 uint_drop_bit64 u f uint_eq_sint b)
  show "serverOf (mkID s m i d) = d"
    unfolding serverOf_def m
    by (rule word_uint_eqI) (simp add: uint_and_mask64 u f uint_eq_sint b)
qed

lemma mkID_inj:
  assumes "fields_ok s m i d" "fields_ok s' m' i' d'" "mkID s m i d = mkID s' m' i' d'"
  shows "s = s' \<and> m = m' \<and> i = i' \<and> d = d'"
  using decode_mkID [OF assms(1)] decode_mkID [OF assms(2)] assms(3) by metis

lemma mkID_sign:
  assumes "fields_ok s m i d"
  shows "mkID s m i d <s 0 \<longleftrightarrow> 2147483648 \<le> sint s"
proof -
  have b: "0 \<le> sint s" "sint s < 4294967296" "0 \<le> sint m" "sint m < 1024"
    "0 \<le> sint i" "sint i < 256" "0 \<le> sint d" "sint d < 16384"
    using assms by (simp_all add: fields_ok_def)
  note u = mkID_uint [OF b]
  have r: "0 \<le> sint m * 4194304 + sint i * 16384 + sint d"
    "sint m * 4194304 + sint i * 16384 + sint d < 4294967296"
    using b by linarith+
  have "uint (mkID s m i d) < 2 ^ 63 \<longleftrightarrow> sint s < 2147483648"
    unfolding u using r by auto
  moreover have "uint (mkID s m i d) < 2 ^ 64" using uint_lt2p [of "mkID s m i d"] by simp
  ultimately show ?thesis
    using uint_lt2p [of "mkID s m i d"]
    by (auto simp: word_sless_alt sint_uint64 split: if_splits)
qed

section \<open>One bucket, no contention\<close>

lemma quiet_pick:
  assumes "quiet g sid T w"
  shows "pickServerID g w = (Return sid, w\<lparr>randReader := (\<lambda>i. randReader w (Suc i))\<rparr>)"
proof -
  from assms have "\<not> isl (randReader w 0)" "serverIDs g = [sid]" by (simp_all add: quiet_def)
  then obtain r where "randReader w 0 = Inr r" by (cases "randReader w 0") simp_all
  with \<open>serverIDs g = [sid]\<close> show ?thesis by (simp add: pickServerID_def)
qed

lemma quiet_pickMS:
  assumes "\<forall>i. unixNano w i = unixNano w 0" "go_div (unixNano w 0) 1000000 = T" "lastMs <s T"
  shows "pickMS lastMs w = (T, w\<lparr>unixNano := (\<lambda>i. unixNano w (Suc (Suc i)))\<rparr>)"
proof -
  have "unixNano w (Suc 0) = unixNano w 0" using assms(1) by blast
  moreover have "\<not> T \<le>s lastMs" using assms(3) by (simp add: word_sless_alt word_sle_eq)
  ultimately show ?thesis
    using assms(2,3) by (simp add: pickMS_def timeMS_def Let_def)
qed

lemma redisIncrBy_ok:
  assumes "- (2 ^ 63) \<le> sint (redisGet s key) + sint delta" "sint (redisGet s key) + sint delta < 2 ^ 63"
  shows "redisIncrBy key delta s =
     (Inr (redisGet s key + delta), s\<lparr>vals := (vals s)(key \<mapsto> redisGet s key + delta)\<rparr>)"
  using assms by (simp add: redisIncrBy_def Let_def)

lemma single_bucket_call:
  assumes q: "quiet g sid T w"
    and sid: "0 \<le> sint sid" "sint sid < 16384"
    and T: "0 < sint T" "sint T < 4294967296000"
    and old: "0 \<le> sint (redisGet (store w) (counterKey (namespace g) sid T))"
    and n: "1 \<le> sint n" "sint (redisGet (store w) (counterKey (namespace g) sid T)) + sint n \<le> 256"
  shows "\<exists>w'. GenMultiIDs g n w =
           (Return (map (\<lambda>k. mkID (go_div T 1000) (go_mod T 1000) (word_of_nat k) sid)
                      [nat (sint (redisGet (store w) (counterKey (namespace g) sid T))) ..<
                       nat (sint (redisGet (store w) (counterKey (namespace g) sid T)) + sint n)]), w') \<and>
         quiet g sid T w' \<and>
         redisGet (store w') (counterKey (namespace g) sid T) =
           redisGet (store w) (counterKey (namespace g) sid T) + n \<and>
         wire w' = wire w @ INCRBY (counterKey (namespace g) sid T) n #
           (if redisGet (store w) (counterKey (namespace g) sid T) = 0
            then [EXPIRE (counterKey (namespace g) sid T) counterKeyExpiration] else [])"
proof -
  let ?key = "counterKey (namespace g) sid T"
  let ?old = "redisGet (store w) ?key"
  let ?ids = "map (\<lambda>k. mkID (go_div T 1000) (go_mod T 1000) (word_of_nat k) sid)
                [nat (sint ?old) ..< nat (sint ?old + sint n)]"
  define w1 where "w1 = w\<lparr>randReader := (\<lambda>i. randReader w (Suc i))\<rparr>"
  define w2 where "w2 = w1\<lparr>unixNano := (\<lambda>i. unixNano w1 (Suc (Suc i)))\<rparr>"
  define s2 where "s2 = (store w2)\<lparr>vals := (vals (store w2))(?key \<mapsto> ?old + n)\<rparr>"
  define w3 where "w3 = w2\<lparr>store := s2, wire := wire w2 @ [INCRBY ?key n]\<rparr>"
  define w4 where "w4 = (if ?old + n = n then expire g ?key w3 else w3)"
  have c: "cli g = redisClient" using q by (simp add: quiet_def)
  have nn: "\<not> n <s 0" using n by (simp add: word_sless_alt)
  have p: "pickServerID g w = (Return sid, w1)"
    unfolding w1_def using q by (rule quiet_pick)
  have clk: "\<forall>i. unixNano w1 i = unixNano w1 0" "go_div (unixNano w1 0) 1000000 = T"
    using q by (simp_all add: quiet_def w1_def)
  have "(0 :: int64) <s T" using T by (simp add: word_sless_alt)
  with clk have pm: "pickMS 0 w1 = (T, w2)"
    unfolding w2_def by (rule quiet_pickMS)
  have st: "store w2 = store w" by (simp add: w2_def w1_def)
  have cnt: "sint (?old + n) = sint ?old + sint n"
    using old n by (intro sint_add64) simp_all
  have inc: "IncrBy (cli g) ?key n (store w2) = (Inr (?old + n), s2)"
    unfolding c s2_def st using old n
    by (simp add: redisClient_def redisIncrBy_ok)
  have a: "attempt g sid (n, 0, []) w1 =
     (Inr (if 255 < sint (?old + n) then ?old + n - 256 else 0, T,
           [] @ map (\<lambda>k. mkID (go_div T 1000) (go_mod T 1000) (word_of_nat k) sid)
                  [nat (sint (?old + n) - sint n) ..< (if 255 < sint (?old + n) then 256 else nat (sint (?old + n)))]),
      w4)"
    unfolding w4_def w3_def
    by (rule attempt_emits [OF pm inc]) (use old n T sid cnt in simp_all)
  have l0: "(if 255 < sint (?old + n) then ?old + n - 256 else 0) = 0"
  proof (cases "255 < sint (?old + n)")
    case True
    then have "sint (?old + n) = 256" using cnt n by simp
    then have "(word_of_int (sint (?old + n)) :: int64) = word_of_int 256" by (simp only:)
    then have "?old + n = 256" by simp
    then show ?thesis by simp
  next
    case False
    then show ?thesis by simp
  qed
  have up: "(if 255 < sint (?old + n) then 256 else nat (sint (?old + n))) = nat (sint ?old + sint n)"
    using cnt n by auto
  have a': "attempt g sid (n, 0, []) w1 = (Inr (0, T, ?ids), w4)"
    using a unfolding l0 up by (simp add: cnt)
  have "loop g sid 0 (n, 0, []) w1 = loop g sid (Suc 0) (0, T, ?ids) w4"
    by (rule loop_step_Inr) (use n a' in \<open>simp_all add: word_sless_alt maxTimeAddrTimes_def\<close>)
  also have "\<dots> = (Inr (0, T, ?ids), w4)"
    by (rule loop_stop) simp
  finally have l: "loop g sid 0 (n, 0, []) w1 = (Inr (0, T, ?ids), w4)" .
  have len: "int (length ?ids) = sint n" using old n by simp
  have g: "GenMultiIDs g n w = (Return ?ids, w4)"
    using nn p l len by (simp add: GenMultiIDs_def)
  have k: "\<And>i. unixNano w i = unixNano w 0" using q by (simp add: quiet_def)
  have u4: "unixNano w4 = (\<lambda>i. unixNano w (Suc (Suc i)))"
    "randReader w4 = (\<lambda>i. randReader w (Suc i))"
    by (simp_all add: w4_def w3_def w2_def w1_def expire_def)
  have "\<forall>i. unixNano w4 i = unixNano w4 0" unfolding u4 using k by metis
  moreover have "go_div (unixNano w 0) 1000000 = T" using q by (simp add: quiet_def)
  then have "go_div (unixNano w4 0) 1000000 = T"
    unfolding u4 by (simp only: k [of "Suc (Suc 0)"])
  moreover have "\<forall>i. \<not> isl (randReader w4 i)"
    unfolding u4 using q by (simp add: quiet_def)
  ultimately have q4: "quiet g sid T w4"
    using q by (simp add: quiet_def)
  have "redisGet (store w4) ?key = ?old + n"
    by (auto simp: w4_def w3_def s2_def expire_def c redisClient_def redisExpire_def redisGet_def
          split: option.splits)
  moreover have "wire w4 = wire w @ INCRBY ?key n #
      (if ?old = 0 then [EXPIRE ?key counterKeyExpiration] else [])"
    by (simp add: w4_def w3_def w2_def w1_def expire_def)
  ultimately show ?thesis using g q4 by blast
qed

lemma calls_single_bucket:
  assumes "quiet g sid T w"
    and sid: "0 \<le> sint sid" "sint sid < 16384"
    and T: "0 < sint T" "sint T < 4294967296000"
    and old: "0 \<le> sint (redisGet (store w) (counterKey (namespace g) sid T))"
    and ns: "\<forall>n\<in>set ns. 1 \<le> sint n"
      "sint (redisGet (store w) (counterKey (namespace g) sid T)) + (\<Sum>n\<leftarrow>ns. sint n) \<le> 256"
  shows "fst (calls g ns w) =
     map Return (chunks (\<lambda>k. mkID (go_div T 1000) (go_mod T 1000) (word_of_nat k) sid)
                   (nat (sint (redisGet (store w) (counterKey (namespace g) sid T)))) ns)"
  using assms(1) old ns
proof (induction ns arbitrary: w)
  case Nil
  show ?case by simp
next
  case (Cons n ns)
  let ?key = "counterKey (namespace g) sid T"
  let ?old = "redisGet (store w) ?key"
  have s0: "0 \<le> (\<Sum>n\<leftarrow>ns. sint n)"
    using Cons.prems(3) by (intro sum_list_nonneg) auto
  have n: "1 \<le> sint n" "sint ?old + sint n \<le> 256"
    using Cons.prems s0 by simp_all
  from single_bucket_call [OF Cons.prems(1) sid T Cons.prems(2) n]
  obtain w' where g: "GenMultiIDs g n w =
        (Return (map (\<lambda>k. mkID (go_div T 1000) (go_mod T 1000) (word_of_nat k) sid)
                   [nat (sint ?old) ..< nat (sint ?old + sint n)]), w')"
    and q: "quiet g sid T w'" and v: "redisGet (store w') ?key = ?old + n"
    by blast
  have sv: "sint (?old + n) = sint ?old + sint n"
    using Cons.prems(2) n by (intro sint_add64) simp_all
  have ih: "fst (calls g ns w') =
     map Return (chunks (\<lambda>k. mkID (go_div T 1000) (go_mod T 1000) (word_of_nat k) sid)
                   (nat (sint (redisGet (store w') ?key))) ns)"
    by (rule Cons.IH [OF q]) (use Cons.prems n v sv in auto)
  have "nat (sint ?old + sint n) = nat (sint ?old) + nat (sint n)"
    using Cons.prems(2) n by simp
  moreover obtain rs w'' where c: "calls g ns w' = (rs, w'')" by (cases "calls g ns w'")
  ultimately show ?case
    using g ih v sv by simp
qed

lemma counters_of_chunks:
  assumes "fields_ok s m 0 d" "lo + nat (\<Sum>n\<leftarrow>ns. sint n) \<le> 256" "\<forall>n\<in>set ns. 1 \<le> sint n"
  shows "map (map counterOf) (chunks (\<lambda>k. mkID s m (word_of_nat k) d) lo ns) = chunks word_of_nat lo ns"
  using assms(2,3)
proof (induction ns arbitrary: lo)
  case Nil
  show ?case by simp
next
  case (Cons n ns)
  have s0: "0 \<le> (\<Sum>n\<leftarrow>ns. sint n)"
    using Cons.prems(2) by (intro sum_list_nonneg) auto
  have b: "lo + nat (sint n) \<le> 256" "lo + nat (sint n) + nat (\<Sum>n\<leftarrow>ns. sint n) \<le> 256"
    using Cons.prems s0 by (simp_all add: nat_add_distrib)
  have "counterOf (mkID s m (word_of_nat k) d) = word_of_nat k" if "k < lo + nat (sint n)" for k
  proof -
    have "k < 256" using that b by simp
    then have "sint (word_of_nat k :: int64) = int k"
      using sint_of_int64 [of "int k"] by simp
    then have "fields_ok s m (word_of_nat k) d"
      using assms(1) \<open>k < 256\<close> by (simp add: fields_ok_def)
    then show ?thesis by (rule decode_mkID)
  qed
  then have "map counterOf (map (\<lambda>k. mkID s m (word_of_nat k) d) [lo ..< lo + nat (sint n)]) =
      map word_of_nat [lo ..< lo + nat (sint n)]"
    by simp
  moreover have "map (map counterOf) (chunks (\<lambda>k. mkID s m (word_of_nat k) d) (lo + nat (sint n)) ns) =
      chunks word_of_nat (lo + nat (sint n)) ns"
    by (rule Cons.IH) (use b Cons.prems in auto)
  ultimately show ?case by simp
qed

lemma fields_ok_ms:
  assumes "0 \<le> sint ms" "sint ms < 4294967296000" "0 \<le> sint i" "sint i < 256"
    "0 \<le> sint sid" "sint sid < 16384"
  shows "fields_ok (go_div ms 1000) (go_mod ms 1000) i sid"
proof -
  have "sint (go_div ms 1000) = sint ms div 1000"
    using go_div_nonneg [of ms 1000] assms by simp
  moreover have "sint (go_mod ms 1000) = sint ms mod 1000"
    using go_mod_nonneg [of ms 1000] assms by simp
  moreover have "0 \<le> sint ms div 1000" "sint ms div 1000 < 4294967296" using assms by simp_all
  ultimately show ?thesis using assms by (simp add: fields_ok_def)
qed

text \<open>
  C6. On a fresh bucket of the in-memory store, with the clock standing still within
  one millisecond and a single server id, calls made one after the other, each for at
  least one identifier and together for at most 256, all succeed, and the counter
  fields they issue are the consecutive runs of the requested lengths, starting at 0:
  unique, without gaps or overlap. For a call for 5 followed by a call for 3 these are
  0 to 4 and then 5 to 7.
\<close>

theorem single_bucket_counters:
  assumes "quiet g sid T w"
    and "0 \<le> sint sid" "sint sid < 16384"
    and "0 < sint T" "sint T < 4294967296000"
    and "vals (store w) (counterKey (namespace g) sid T) = None"
    and "\<forall>n\<in>set ns. 1 \<le> sint n" "(\<Sum>n\<leftarrow>ns. sint n) \<le> 256"
  shows "fst (calls g ns w) =
           map Return (chunks (\<lambda>k. mkID (go_div T 1000) (go_mod T 1000) (word_of_nat k) sid) 0 ns) \<and>
         map (map counterOf) (chunks (\<lambda>k. mkID (go_div T 1000) (go_mod T 1000) (word_of_nat k) sid) 0 ns) =
           chunks word_of_nat 0 ns"
proof
  have z: "redisGet (store w) (counterKey (namespace g) sid T) = 0"
    using assms(6) by (simp add: redisGet_def)
  have "fst (calls g ns w) =
     map Return (chunks (\<lambda>k. mkID (go_div T 1000) (go_mod T 1000) (word_of_nat k) sid)
                   (nat (sint (redisGet (store w) (counterKey (namespace g) sid T)))) ns)"
    by (rule calls_single_bucket [OF assms(1-5)]) (use assms(7,8) z in simp_all)
  then show "fst (calls g ns w) =
      map Return (chunks (\<lambda>k. mkID (go_div T 1000) (go_mod T 1000) (word_of_nat k) sid) 0 ns)"
    by (simp add: z)
  have "fields_ok (go_div T 1000) (go_mod T 1000) 0 sid"
    by (rule fields_ok_ms) (use assms in simp_all)
  then show "map (map counterOf) (chunks (\<lambda>k. mkID (go_div T 1000) (go_mod T 1000) (word_of_nat k) sid) 0 ns) =
      chunks word_of_nat 0 ns"
    by (rule counters_of_chunks) (use assms(7,8) in simp_all)
qed

lemma quiet_frozen:
  "quiet g7 7 (go_div nano 1000000) (frozen nano)"
  by (simp add: quiet_def g7_def frozen_def)

theorem single_bucket_counters_witness:
  "fst (calls g7 [5, 3] (frozen 5000000)) =
     [Return (map (\<lambda>k. mkID 0 5 (word_of_nat k) 7) [0, 1, 2, 3, 4]),
      Return (map (\<lambda>k. mkID 0 5 (word_of_nat k) 7) [5, 6, 7])] \<and>
   map (map counterOf)
     [map (\<lambda>k. mkID 0 5 (word_of_nat k) 7) [0, 1, 2, 3, 4],
      map (\<lambda>k. mkID 0 5 (word_of_nat k) 7) [5, 6, 7]] =
     [[0, 1, 2, 3, 4], [5, 6, 7]]"
proof -
  have T: "go_div 5000000 1000000 = 5" "go_div 5 1000 = 0" "go_mod 5 1000 = 5"
    by (simp_all add: go_div_def go_mod_def signed_divide_int_def signed_modulo_int_def)
  have q: "quiet g7 7 5 (frozen 5000000)"
    using quiet_frozen [of 5000000] by (simp add: T)
  have f: "vals (store (frozen 5000000)) (counterKey (namespace g7) 7 5) = None"
    by (simp add: frozen_def emptyRedis_def)
  have u: "[0 ..< 5] = [0, 1, 2, 3, 4 :: nat]" "[5 ..< 8] = [5, 6, 7 :: nat]"
    by (simp_all add: upt_rec)
  show ?thesis
    using single_bucket_counters [of g7 7 5 "frozen 5000000" "[5, 3]"] q f
    by (simp add: T u)
qed

section \<open>Calls on the standing clock\<close>

lemma frozen_call:
  assumes "1 \<le> sint n" "sint n \<le> 256"
  shows "\<exists>w'. GenMultiIDs g7 n (frozen 5000000) =
           (Return (map (\<lambda>k. mkID 0 5 (word_of_nat k) 7) [0 ..< nat (sint n)]), w') \<and>
         wire w' = [INCRBY ''id_generator:ns:7:5'' n, EXPIRE ''id_generator:ns:7:5'' 600000000000]"
proof -
  have T: "go_div 5000000 1000000 = 5" "go_div 5 1000 = 0" "go_mod 5 1000 = 5"
    by (simp_all add: go_div_def go_mod_def signed_divide_int_def signed_modulo_int_def)
  have q: "quiet g7 7 5 (frozen 5000000)"
    using quiet_frozen [of 5000000] by (simp add: T)
  have k: "counterKey (namespace g7) 7 5 = ''id_generator:ns:7:5''"
    by (simp add: g7_def counterKey_def fmt_int64_def word_sless_alt dec_nat.simps digit_char_def)
  have z: "redisGet (store (frozen 5000000)) ''id_generator:ns:7:5'' = 0"
    by (simp add: frozen_def emptyRedis_def redisGet_def)
  from single_bucket_call [OF q, of n] assms
  have "\<exists>w'. GenMultiIDs g7 n (frozen 5000000) =
           (Return (map (\<lambda>k. mkID 0 5 (word_of_nat k) 7) [0 ..< nat (sint n)]), w') \<and>
         quiet g7 7 5 w' \<and> redisGet (store w') ''id_generator:ns:7:5'' = n \<and>
         wire w' = [INCRBY ''id_generator:ns:7:5'' n, EXPIRE ''id_generator:ns:7:5'' 600000000000]"
    unfolding k z by (simp add: T frozen_def counterKeyExpiration_def)
  then show ?thesis by blast
qed

theorem bucket_key_sent_witness:
  "\<exists>cmds. [INCRBY ''id_generator:ns:7:5'' 1, EXPIRE ''id_generator:ns:7:5'' 600000000000] = cmds \<and>
     (\<forall>c\<in>set cmds. \<exists>serverID\<in>set [7]. \<exists>ms.
        keyOf c = ''id_generator:'' @ ''ns'' @ '':'' @ fmt_int64 serverID @ '':'' @ fmt_int64 ms)"
proof -
  obtain w' where "GenMultiIDs g7 1 (frozen 5000000) =
      (Return (map (\<lambda>k. mkID 0 5 (word_of_nat k) 7) [0 ..< nat (sint (1 :: int64))]), w')"
    and "wire w' = [INCRBY ''id_generator:ns:7:5'' 1, EXPIRE ''id_generator:ns:7:5'' 600000000000]"
    using frozen_call [of 1] by auto
  then have ev: "wire (snd (GenMultiIDs g7 1 (frozen 5000000))) =
      [INCRBY ''id_generator:ns:7:5'' 1, EXPIRE ''id_generator:ns:7:5'' 600000000000]"
    by simp
  have w: "wire (frozen 5000000) = []" "serverIDs g7 = [7]" "namespace g7 = ''ns''"
    by (simp_all add: frozen_def g7_def)
  show ?thesis
    using bucket_key_sent [of g7 1 "frozen 5000000"] unfolding ev w by simp
qed

theorem GenID_first_of_one_witness:
  "\<exists>w'. GenID g7 (frozen 5000000) = (Return (mkID 0 5 0 7), w') \<and>
        GenMultiIDs g7 1 (frozen 5000000) = (Return [mkID 0 5 0 7], w')"
proof -
  obtain w' where m: "GenMultiIDs g7 1 (frozen 5000000) = (Return [mkID 0 5 0 7], w')"
    using frozen_call [of 1] by auto
  then have "GenID g7 (frozen 5000000) = (Return (mkID 0 5 0 7), w')"
    using GenID_first_of_one [of g7 "frozen 5000000" "mkID 0 5 0 7" w'] by simp
  with m show ?thesis by blast
qed

section \<open>The bound on attempts\<close>

lemma reaches_idx:
  assumes "reaches g sid (idx0, v0, w0) c'" "idx0 \<le> maxTimeAddrTimes"
  shows "fst c' \<le> maxTimeAddrTimes"
  using assms(1)
  by (rule reaches_invariant [where P = "\<lambda>c. fst c \<le> maxTimeAddrTimes"]) (use assms(2) in auto)

text \<open>
  C4. A call makes at most 8 attempts and sends at most 8 increments to the store; and
  when the loop ends with fewer identifiers than requested, or with something still
  owed, the call fails with the error that reports the namespace, the requested count,
  the number produced and the last millisecond tried.
\<close>

theorem bounded_attempts:
  "(\<exists>cmds. wire (snd (GenMultiIDs g counts w)) = wire w @ cmds \<and> length (filter isIncr cmds) \<le> 8) \<and>
   (in_call g counts w sid (idx, v, w') \<longrightarrow> idx \<le> 8) \<and>
   (\<not> counts <s 0 \<and> pickServerID g w = (Return sid, w1) \<and>
    fst (loop g sid 0 (counts, 0, []) w1) = Inr (leftNum, lastMs, ids) \<and>
    (int (length ids) < sint counts \<or> leftNum \<noteq> 0) \<longrightarrow>
      fst (GenMultiIDs g counts w) = Failure (ErrNotEnough (namespace g) counts (length ids) lastMs))"
proof (intro conjI impI)
  show "\<exists>cmds. wire (snd (GenMultiIDs g counts w)) = wire w @ cmds \<and> length (filter isIncr cmds) \<le> 8"
    using GenMultiIDs_wire [of g counts w] by (auto simp: maxTimeAddrTimes_def)
next
  assume "in_call g counts w sid (idx, v, w')"
  then obtain w1 where "reaches g sid (0, (counts, 0, []), w1) (idx, v, w')"
    by (auto simp: in_call_def)
  from reaches_idx [OF this] show "idx \<le> 8" by (simp add: maxTimeAddrTimes_def)
next
  assume a: "\<not> counts <s 0 \<and> pickServerID g w = (Return sid, w1) \<and>
    fst (loop g sid 0 (counts, 0, []) w1) = Inr (leftNum, lastMs, ids) \<and>
    (int (length ids) < sint counts \<or> leftNum \<noteq> 0)"
  then show "fst (GenMultiIDs g counts w) = Failure (ErrNotEnough (namespace g) counts (length ids) lastMs)"
    by (cases "loop g sid 0 (counts, 0, []) w1") (auto simp: GenMultiIDs_def)
qed

lemmas attempt_simps = attempt_def pickMS_def timeMS_def incrBy_def expire_def go_div_def go_mod_def
  maxCounter_def maxTimeAddrTimes_def Let_def signed_divide_int_def signed_modulo_int_def
  word_sless_alt word_sle_eq generatorOn_def worldOn_def answering_def

theorem bounded_attempts_witness:
  "fst (GenMultiIDs (generatorOn (answering 1000)) 1 (worldOn (\<lambda>i. 5000000) ())) =
     Failure (ErrNotEnough ''ns'' 1 0 12) \<and>
   (\<exists>cmds. wire (snd (GenMultiIDs (generatorOn (answering 1000)) 1 (worldOn (\<lambda>i. 5000000) ()))) = cmds \<and>
      length (filter isIncr cmds) \<le> 8)"
proof -
  let ?g = "generatorOn (answering 1000)"
  let ?w = "worldOn (\<lambda>i. 5000000) ()"
  let ?w1 = "?w\<lparr>randReader := (\<lambda>i. randReader ?w (Suc i))\<rparr>"
  have p: "pickServerID ?g ?w = (Return 7, ?w1)"
    by (simp add: pickServerID_def generatorOn_def worldOn_def)
  have n: "\<not> (1 :: int64) <s 0" by (simp add: word_sless_alt)
  have l: "fst (loop ?g 7 0 (1, 0, []) ?w1) = Inr (1, 12, [])"
    by (simp add: loop_unroll attempt_simps)
  have i: "in_call ?g 1 ?w 7 (0, (1, 0, []), ?w1)"
    using p n by (simp add: in_call_def reaches_init)
  have e: "wire ?w = []" by (simp add: worldOn_def)
  show ?thesis
    using bounded_attempts [of ?g 1 ?w 7 0 "(1, 0, [])" ?w1 ?w1 1 12 "[]"] p n l i
    by (simp add: e generatorOn_def)
qed

section \<open>Identifiers with the sign bit set\<close>

lemma go_div_1000_sint: "sint (go_div a 1000) = sint a sdiv 1000"
proof -
  have b: "- (2 ^ 63) \<le> sint a" "sint a < 2 ^ 63" using sint_ge [of a] sint_lt [of a] by simp_all
  have "\<bar>sint a\<bar> div 1000 \<le> \<bar>sint a\<bar>"
    by (cases "sint a = 0") (simp_all add: int_div_le_self)
  then have "- (2 ^ 63) \<le> sint a sdiv 1000 \<and> sint a sdiv 1000 < 2 ^ 63"
    using b by (auto simp: signed_divide_int_def sgn_if)
  then show ?thesis
    unfolding go_div_def using sint_of_int64 [of "sint a sdiv 1000"] by simp
qed

lemma seconds_pos_ms:
  assumes "0 < sint (go_div ms 1000)"
  shows "0 \<le> sint ms"
proof (rule ccontr)
  assume "\<not> 0 \<le> sint ms"
  then have "sint ms sdiv 1000 \<le> 0"
    by (simp add: signed_divide_int_def sgn_if pos_imp_zdiv_nonneg_iff)
  with assms show False by (simp add: go_div_1000_sint)
qed

text \<open>
  C10. The check on the seconds accepts every number from 0 to \<open>2^32 - 1\<close>. For a
  millisecond whose seconds are \<open>2^31\<close> or more and pass the check, every identifier
  packed from it, whatever the counter and the valid server id, is negative as a signed
  64-bit number; so it compares below every identifier packed from an earlier
  millisecond whose seconds are below \<open>2^31\<close>, although it was made later. And
  \<open>GenMultiIDs\<close> does return such an identifier: with the clock at second \<open>2^31\<close>
  the call for one identifier succeeds and the identifier is negative.
\<close>

theorem negative_identifiers:
  fixes sec ms ms' i i' sid sid' :: int64
  assumes "0 \<le> sint sec" "sint sec \<le> 4294967295"
    and late: "2147483648 \<le> sint (go_div ms 1000)" "sint (go_div ms 1000) \<le> 4294967295"
    and early: "0 \<le> sint ms'" "sint (go_div ms' 1000) < 2147483648"
    and ctr: "0 \<le> sint i" "sint i \<le> 255" "0 \<le> sint i'" "sint i' \<le> 255"
    and srv: "(sid AND 0x3FFF) = sid" "(sid' AND 0x3FFF) = sid'"
  shows "(sec AND 0xFFFFFFFF) = sec \<and>
     (go_div ms 1000 AND 0xFFFFFFFF) = go_div ms 1000 \<and>
     mkID (go_div ms 1000) (go_mod ms 1000) i sid <s 0 \<and>
     ms' <s ms \<and>
     mkID (go_div ms 1000) (go_mod ms 1000) i sid <s mkID (go_div ms' 1000) (go_mod ms' 1000) i' sid' \<and>
     (\<exists>x w'. GenMultiIDs g7 1 (frozen 2147483648000000000) = (Return [x], w') \<and> x <s 0)"
proof -
  have a: "(sec AND 0xFFFFFFFF) = sec" using assms(1,2) by (simp add: and_mask32_iff)
  have b: "(go_div ms 1000 AND 0xFFFFFFFF) = go_div ms 1000" using late by (simp add: and_mask32_iff)
  have m0: "0 \<le> sint ms" using late by (intro seconds_pos_ms) simp
  then have d: "sint (go_div ms 1000) = sint ms div 1000" using go_div_nonneg [of ms 1000] by simp
  have d': "sint (go_div ms' 1000) = sint ms' div 1000" using go_div_nonneg [of ms' 1000] early by simp
  have mhi: "sint ms < 4294967296000" using late d by linarith
  have mhi': "sint ms' < 4294967296000" using early d' by linarith
  have s: "0 \<le> sint sid" "sint sid < 16384" "0 \<le> sint sid'" "sint sid' < 16384"
    using srv by (simp_all add: and_mask14_iff)
  have f: "fields_ok (go_div ms 1000) (go_mod ms 1000) i sid"
    by (rule fields_ok_ms) (use m0 mhi ctr s in simp_all)
  have f': "fields_ok (go_div ms' 1000) (go_mod ms' 1000) i' sid'"
    by (rule fields_ok_ms) (use early mhi' ctr s in simp_all)
  have neg: "mkID (go_div ms 1000) (go_mod ms 1000) i sid <s 0"
    using mkID_sign [OF f] late by simp
  have pos: "\<not> mkID (go_div ms' 1000) (go_mod ms' 1000) i' sid' <s 0"
    using mkID_sign [OF f'] early by simp
  have lt: "ms' <s ms" using late early d d' by (simp add: word_sless_alt)
  have cmp: "mkID (go_div ms 1000) (go_mod ms 1000) i sid <s mkID (go_div ms' 1000) (go_mod ms' 1000) i' sid'"
    using neg pos by (simp add: word_sless_alt)
  have T: "go_div 2147483648000000000 1000000 = 2147483648000"
    "go_div 2147483648000 1000 = 2147483648" "go_mod 2147483648000 1000 = 0"
    by (simp_all add: go_div_def go_mod_def signed_divide_int_def signed_modulo_int_def)
  have q: "quiet g7 7 2147483648000 (frozen 2147483648000000000)"
    using quiet_frozen [of 2147483648000000000] by (simp add: T)
  have z: "redisGet (store (frozen 2147483648000000000)) k = 0" for k
    by (simp add: frozen_def emptyRedis_def redisGet_def)
  from single_bucket_call [OF q, of 1]
  obtain w' where r: "GenMultiIDs g7 1 (frozen 2147483648000000000) = (Return [mkID 2147483648 0 0 7], w')"
    by (auto simp: z T)
  have "fields_ok 2147483648 0 0 7" by (simp add: fields_ok_def)
  then have "mkID 2147483648 0 0 7 <s 0" using mkID_sign [of 2147483648 0 0 7] by simp
  with r have run: "\<exists>x w'. GenMultiIDs g7 1 (frozen 2147483648000000000) = (Return [x], w') \<and> x <s 0"
    by blast
  show ?thesis using a b neg lt cmp run by blast
qed

theorem negative_identifiers_witness:
  "((4294967295 :: int64) AND 0xFFFFFFFF) = 4294967295 \<and>
   mkID 2147483648 0 0 7 <s 0 \<and>
   (2147483647999 :: int64) <s 2147483648000 \<and>
   mkID 2147483648 0 0 7 <s mkID 2147483647 999 255 7"
proof -
  have T: "go_div 2147483648000 1000 = 2147483648" "go_mod 2147483648000 1000 = 0"
    "go_div 2147483647999 1000 = 2147483647" "go_mod 2147483647999 1000 = 999"
    by (simp_all add: go_div_def go_mod_def signed_divide_int_def signed_modulo_int_def)
  have m: "((7 :: int64) AND 0x3FFF) = 7" by (simp add: and_mask14_iff)
  show ?thesis
    using negative_identifiers [of 4294967295 2147483648000 2147483647999 0 255 7 7] m
    by (simp add: T)
qed

section \<open>The recycling error\<close>

lemma in_call_fails:
  assumes c: "in_call g counts w0 sid (idx, v, w)"
    and "0 <s fst v" "idx < maxTimeAddrTimes"
    and a: "attempt g sid v w = (Inl err, w')"
  shows "GenMultiIDs g counts w0 = (Failure err, w')"
proof -
  from c obtain w1 where n: "\<not> counts <s 0" and p: "pickServerID g w0 = (Return sid, w1)"
    and r: "reaches g sid (0, (counts, 0, []), w1) (idx, v, w)"
    by (auto simp: in_call_def)
  have "loop g sid 0 (counts, 0, []) w1 = loop g sid idx v w"
    using reaches_loop [OF r] by simp
  also have "\<dots> = (Inl err, w')"
    using assms(2,3) a by (rule loop_step_Inl)
  finally show ?thesis using n p by (simp add: GenMultiIDs_def)
qed

lemma recycling_without_wrap:
  assumes "in_call g counts w0 sid (idx, (leftNum, lastMs, ids), w)"
    and "0 <s leftNum" "idx < maxTimeAddrTimes"
    and "pickMS lastMs w = (ms, w1)"
    and "IncrBy (cli g) (counterKey (namespace g) sid ms) leftNum (store w1) = (Inr counter, s2)"
    and "counter <s leftNum"
    and "- (2 ^ 63) \<le> sint counter - sint leftNum"
  shows "\<exists>w'. attempt g sid (leftNum, lastMs, ids) w = (Inl (ErrRecycling ms), w') \<and>
              GenMultiIDs g counts w0 = (Failure (ErrRecycling ms), w')"
proof -
  have lt: "sint counter < sint leftNum" using assms(6) by (simp add: word_sless_alt)
  have "sint leftNum < 2 ^ 63" using sint_lt [of leftNum] by simp
  then have "sint (counter - leftNum) = sint counter - sint leftNum"
    using assms(7) lt by (intro sint_sub64) simp_all
  then have ns: "\<not> maxCounter <s counter - leftNum"
    using lt by (simp add: word_sless_alt maxCounter_eq)
  obtain w' where a: "attempt g sid (leftNum, lastMs, ids) w = (Inl (ErrRecycling ms), w')"
    using assms(4,5,6) ns by (simp add: attempt_def incrBy_def Let_def)
  have "GenMultiIDs g counts w0 = (Failure (ErrRecycling ms), w')"
    by (rule in_call_fails [OF assms(1) _ assms(3) a]) (use assms(2) in simp)
  with a show ?thesis by blast
qed

text \<open>
  What the in-memory store answers is always the stored number plus the delta, as
  integers: taking the delta off again never leaves the signed 64-bit range.
\<close>

lemma redisIncrBy_total:
  assumes "redisIncrBy key delta s = (Inr r, s')"
  shows "sint r - sint delta = sint (redisGet s key)"
proof -
  have r: "- (2 ^ 63) \<le> sint (redisGet s key) + sint delta" "sint (redisGet s key) + sint delta < 2 ^ 63"
    and t: "r = redisGet s key + delta"
    using assms by (auto simp: redisIncrBy_def Let_def split: if_splits)
  have "sint r = sint (redisGet s key) + sint delta"
    unfolding t using r by (rule sint_add64)
  then show ?thesis by simp
qed

text \<open>
  C3. On the counter store, in any attempt of a call and in any state of the store: if
  the store answers the increment with a total below the requested delta, the attempt
  returns the recycling error naming the millisecond of the attempt, and the whole call
  fails with that error; none of the identifiers of earlier attempts is returned.
\<close>

theorem recycling_fails_the_call:
  assumes "cli g = redisClient"
    and "in_call g counts w0 sid (idx, (leftNum, lastMs, ids), w)"
    and "0 <s leftNum" "idx < maxTimeAddrTimes"
    and "pickMS lastMs w = (ms, w1)"
    and "IncrBy (cli g) (counterKey (namespace g) sid ms) leftNum (store w1) = (Inr counter, s2)"
    and "counter <s leftNum"
  shows "\<exists>w'. attempt g sid (leftNum, lastMs, ids) w = (Inl (ErrRecycling ms), w') \<and>
              GenMultiIDs g counts w0 = (Failure (ErrRecycling ms), w')"
proof -
  have "redisIncrBy (counterKey (namespace g) sid ms) leftNum (store w1) = (Inr counter, s2)"
    using assms(1,6) by (simp add: redisClient_def)
  then have "sint counter - sint leftNum = sint (redisGet (store w1) (counterKey (namespace g) sid ms))"
    by (rule redisIncrBy_total)
  then have "- (2 ^ 63) \<le> sint counter - sint leftNum"
    using sint_ge [of "redisGet (store w1) (counterKey (namespace g) sid ms)"] by simp
  with assms(2-7) show ?thesis by (rule recycling_without_wrap)
qed

theorem recycling_fails_the_call_witness:
  "fst (GenMultiIDs g7 1 recycled) = Failure (ErrRecycling 5)"
proof -
  let ?w1 = "recycled\<lparr>randReader := (\<lambda>i. randReader recycled (Suc i))\<rparr>"
  let ?w2 = "?w1\<lparr>unixNano := (\<lambda>i. unixNano ?w1 (Suc (Suc i)))\<rparr>"
  let ?key = "counterKey (namespace g7) 7 5"
  have g: "cli g7 = redisClient" by (simp add: g7_def)
  have p: "pickServerID g7 recycled = (Return 7, ?w1)"
    by (simp add: pickServerID_def g7_def recycled_def)
  have c: "in_call g7 1 recycled 7 (0, (1, 0, []), ?w1)"
    using p by (simp add: in_call_def reaches_init word_sless_alt)
  have m: "pickMS 0 ?w1 = (5, ?w2)"
    by (simp add: pickMS_def timeMS_def recycled_def go_div_def signed_divide_int_def
          word_sless_alt word_sle_eq)
  have i: "IncrBy (cli g7) ?key 1 (store ?w2) =
      (Inr (- 4), (store ?w2)\<lparr>vals := (vals (store ?w2))(?key \<mapsto> - 4)\<rparr>)"
    by (simp add: g redisClient_def redisIncrBy_def redisGet_def recycled_def Let_def)
  have "\<exists>w'. attempt g7 7 (1, 0, []) ?w1 = (Inl (ErrRecycling 5), w') \<and>
              GenMultiIDs g7 1 recycled = (Failure (ErrRecycling 5), w')"
    by (rule recycling_fails_the_call [OF g c _ _ m i])
       (simp_all add: word_sless_alt maxTimeAddrTimes_def)
  then show ?thesis by auto
qed

section \<open>A clock that steps back\<close>

text \<open>
  C5. An attempt whose start exceeds 255 produces nothing and leaves the number still
  owed as it was; that much holds. But the next attempt does not always use a later
  millisecond: the loop reads the clock twice, tests the first reading against
  \<open>lastMs\<close> and uses the second, and then only adds one. With the store saturated and
  the clock showing the milliseconds 5, 5, 6, 4, the first attempt of a call for one
  identifier uses millisecond 5 and is skipped, and the second attempt, finding 6 and
  then 4 on the clock, uses millisecond 5 again.
\<close>

theorem second_attempt_same_millisecond:
  "in_call (generatorOn (answering 1000)) 1 steppingBack 7
     (1, (1, 5, []),
      snd (attempt (generatorOn (answering 1000)) 7 (1, 0, []) (snd (pickServerID (generatorOn (answering 1000)) steppingBack)))) \<and>
   fst (attempt (generatorOn (answering 1000)) 7 (1, 5, [])
      (snd (attempt (generatorOn (answering 1000)) 7 (1, 0, []) (snd (pickServerID (generatorOn (answering 1000)) steppingBack))))) =
     Inr (1, 5, [])"
proof -
  let ?g = "generatorOn (answering 1000)"
  let ?w1 = "snd (pickServerID ?g steppingBack)"
  let ?w2 = "snd (attempt ?g 7 (1, 0, []) ?w1)"
  have p: "pickServerID ?g steppingBack = (Return 7, ?w1)"
    by (simp add: pickServerID_def generatorOn_def steppingBack_def worldOn_def)
  have a1: "fst (attempt ?g 7 (1, 0, []) ?w1) = Inr (1, 5, [])"
    by (simp add: attempt_simps pickServerID_def steppingBack_def)
  then have a1': "attempt ?g 7 (1, 0, []) ?w1 = (Inr (1, 5, []), ?w2)"
    by (metis prod.collapse)
  have r: "reaches ?g 7 (0, (1, 0, []), ?w1) (Suc 0, (1, 5, []), ?w2)"
    by (rule reaches_step [OF reaches_init _ _ a1']) (simp_all add: word_sless_alt maxTimeAddrTimes_def)
  have c: "in_call ?g 1 steppingBack 7 (1, (1, 5, []), ?w2)"
    using p r by (auto simp: in_call_def word_sless_alt)
  have a2: "fst (attempt ?g 7 (1, 5, []) ?w2) = Inr (1, 5, [])"
    by (simp add: attempt_simps pickServerID_def steppingBack_def)
  show ?thesis using c a2 by simp
qed

section \<open>Clock readings\<close>

lemma attempt_clock:
  "unixNano (snd (attempt g sid v w)) = (\<lambda>i. unixNano w (Suc (Suc i)))"
proof -
  obtain leftNum lastMs ids where v: "v = (leftNum, lastMs, ids)" by (cases v)
  obtain ms w1 where p: "pickMS lastMs w = (ms, w1)" by (cases "pickMS lastMs w")
  have w1: "w1 = w\<lparr>unixNano := (\<lambda>i. unixNano w (Suc (Suc i)))\<rparr>"
    using pickMS_world [of lastMs w] p by simp
  obtain r s2 where i: "IncrBy (cli g) (counterKey (namespace g) sid ms) leftNum (store w1) = (r, s2)"
    by (cases "IncrBy (cli g) (counterKey (namespace g) sid ms) leftNum (store w1)")
  show ?thesis
    using p i unfolding v attempt_def incrBy_def expire_def Let_def
    by (cases r) (auto simp: w1)
qed

lemma timeMS_bound:
  "- 9223372036854 \<le> sint (fst (timeMS w)) \<and> sint (fst (timeMS w)) \<le> 9223372036854"
proof -
  let ?a = "sint (unixNano w 0)"
  have b: "- (2 ^ 63) \<le> ?a" "?a < 2 ^ 63" using sint_ge [of "unixNano w 0"] sint_lt [of "unixNano w 0"] by simp_all
  have d: "\<bar>?a\<bar> div 1000000 \<le> 9223372036854"
  proof -
    have "\<bar>?a\<bar> \<le> 9223372036854775808" using b by simp
    then have "\<bar>?a\<bar> div 1000000 \<le> 9223372036854775808 div 1000000" by (rule zdiv_mono1) simp
    then show ?thesis by simp
  qed
  have n: "0 \<le> \<bar>?a\<bar> div 1000000" by (simp add: pos_imp_zdiv_nonneg_iff)
  have s: "- 9223372036854 \<le> ?a sdiv 1000000 \<and> ?a sdiv 1000000 \<le> 9223372036854"
    using d n by (auto simp: signed_divide_int_def sgn_if)
  then have "sint (word_of_int (?a sdiv 1000000) :: int64) = ?a sdiv 1000000"
    by (intro sint_of_int64) simp_all
  then show ?thesis using s by (simp add: timeMS_def go_div_def)
qed

lemma timeMS_after_epoch:
  assumes "0 \<le>s unixNano w 0"
  shows "0 \<le> sint (fst (timeMS w))"
  using go_div_nonneg [of "unixNano w 0" 1000000] assms
  by (simp add: timeMS_def word_sle_eq pos_imp_zdiv_nonneg_iff)

section \<open>Picking the millisecond\<close>

lemma sint_inc:
  fixes x :: int64
  assumes "sint x < 2 ^ 63 - 1"
  shows "sint (x + 1) = sint x + 1"
  using assms sint_ge [of x] sint_add64 [of x 1] by simp

lemma sint_inc_wrap:
  fixes x :: int64
  assumes "\<not> sint x < 2 ^ 63 - 1"
  shows "sint (x + 1) = - (2 ^ 63)"
proof -
  have "sint x = 2 ^ 63 - 1" using assms sint_lt [of x] by simp
  then have "(word_of_int (sint x) :: int64) = word_of_int (2 ^ 63 - 1)" by (simp only:)
  then have "x = 9223372036854775807" by simp
  then show ?thesis by simp
qed

lemma pickMS_fst:
  "fst (pickMS lastMs w) =
     (let t1 = fst (timeMS w);
          t2 = fst (timeMS (snd (timeMS w)));
          ms = (if lastMs <s t1 then t2 else lastMs)
      in if ms \<le>s lastMs then ms + 1 else ms)"
  by (simp add: pickMS_def Let_def split: prod.splits)

lemma pickMS_after_epoch:
  assumes c: "clock_after_epoch (unixNano w)"
    and l: "0 \<le> sint lastMs \<or> sint lastMs < - 1000"
  shows "0 \<le> sint (fst (pickMS lastMs w)) \<or> sint (fst (pickMS lastMs w)) < - 1000"
proof -
  define t1 where "t1 = fst (timeMS w)"
  define t2 where "t2 = fst (timeMS (snd (timeMS w)))"
  have "0 \<le>s unixNano w 0" "0 \<le>s unixNano (snd (timeMS w)) 0"
    using c by (simp_all add: clock_after_epoch_def timeMS_def)
  then have t: "0 \<le> sint t1" "0 \<le> sint t2"
    unfolding t1_def t2_def by (simp_all add: timeMS_after_epoch)
  have b: "sint t2 \<le> 9223372036854"
    unfolding t2_def using timeMS_bound [of "snd (timeMS w)"] by simp
  show ?thesis
  proof (cases "lastMs <s t1")
    case True
    show ?thesis
    proof (cases "t2 \<le>s lastMs")
      case True
      have "sint (t2 + 1) = sint t2 + 1" using b by (intro sint_inc) simp
      then show ?thesis
        using \<open>lastMs <s t1\<close> True t
        by (simp add: pickMS_fst Let_def t1_def [symmetric] t2_def [symmetric])
    next
      case False
      then show ?thesis
        using \<open>lastMs <s t1\<close> t
        by (simp add: pickMS_fst Let_def t1_def [symmetric] t2_def [symmetric])
    qed
  next
    case False
    then have p: "fst (pickMS lastMs w) = lastMs + 1"
      by (simp add: pickMS_fst Let_def t1_def [symmetric] t2_def [symmetric] word_sle_eq)
    from False t have l0: "0 \<le> sint lastMs" by (simp add: word_sless_alt)
    show ?thesis
    proof (cases "sint lastMs < 2 ^ 63 - 1")
      case True
      then show ?thesis using p l0 sint_inc [of lastMs] by simp
    next
      case False
      then show ?thesis using p sint_inc_wrap [of lastMs] by simp
    qed
  qed
qed

lemma sdiv_mono:
  fixes a b c :: int
  assumes "a \<le> b" "0 < c"
  shows "a sdiv c \<le> b sdiv c"
proof -
  have nn: "0 \<le> x div c" if "0 \<le> x" for x using that assms(2) by (simp add: pos_imp_zdiv_nonneg_iff)
  consider "0 \<le> a" | "a < 0" "0 \<le> b" | "b < 0" using assms(1) by linarith
  then show ?thesis
  proof cases
    case 1
    then show ?thesis using assms nn [of b]
      by (auto simp: signed_divide_int_def sgn_if zdiv_mono1)
  next
    case 2
    then show ?thesis using assms nn [of "- a"] nn [of b]
      by (auto simp: signed_divide_int_def sgn_if)
  next
    case 3
    then have "(- b) div c \<le> (- a) div c" using assms by (intro zdiv_mono1) simp_all
    then show ?thesis using 3 assms by (simp add: signed_divide_int_def sgn_if)
  qed
qed

lemma go_div_million_sint: "sint (go_div a 1000000) = sint a sdiv 1000000"
proof -
  have b: "- (2 ^ 63) \<le> sint a" "sint a < 2 ^ 63" using sint_ge [of a] sint_lt [of a] by simp_all
  have "\<bar>sint a\<bar> div 1000000 \<le> \<bar>sint a\<bar>"
    by (cases "sint a = 0") (simp_all add: int_div_le_self)
  then have "- (2 ^ 63) \<le> sint a sdiv 1000000 \<and> sint a sdiv 1000000 < 2 ^ 63"
    using b by (auto simp: signed_divide_int_def sgn_if)
  then show ?thesis
    unfolding go_div_def using sint_of_int64 [of "sint a sdiv 1000000"] by simp
qed

lemma pickMS_steady:
  assumes c: "clock_steady (unixNano w)"
    and l: "sint lastMs < 2 ^ 63 - 1"
  shows "sint lastMs < sint (fst (pickMS lastMs w)) \<and>
         (sint (fst (pickMS lastMs w)) \<le> sint lastMs + 1 \<or> sint (fst (pickMS lastMs w)) \<le> 9223372036854)"
proof -
  define t1 where "t1 = fst (timeMS w)"
  define t2 where "t2 = fst (timeMS (snd (timeMS w)))"
  have "unixNano w 0 \<le>s unixNano w (Suc 0)" using c by (simp add: clock_steady_def)
  then have "sint (unixNano w 0) sdiv 1000000 \<le> sint (unixNano w (Suc 0)) sdiv 1000000"
    by (intro sdiv_mono) (simp_all add: word_sle_eq)
  then have m: "sint t1 \<le> sint t2"
    by (simp add: t1_def t2_def timeMS_def go_div_million_sint)
  have b: "sint t2 \<le> 9223372036854"
    unfolding t2_def using timeMS_bound [of "snd (timeMS w)"] by simp
  show ?thesis
  proof (cases "lastMs <s t1")
    case True
    then have "\<not> t2 \<le>s lastMs" using m by (simp add: word_sless_alt word_sle_eq)
    then have "fst (pickMS lastMs w) = t2"
      using True by (simp add: pickMS_fst Let_def t1_def [symmetric] t2_def [symmetric])
    then show ?thesis using True m b by (simp add: word_sless_alt)
  next
    case False
    then have "fst (pickMS lastMs w) = lastMs + 1"
      by (simp add: pickMS_fst Let_def t1_def [symmetric] t2_def [symmetric] word_sle_eq)
    then show ?thesis using sint_inc [OF l] by simp
  qed
qed

section \<open>Reading back what was packed\<close>

lemma seconds_ok_range:
  assumes "(go_div ms 1000 AND 0xFFFFFFFF) = go_div ms 1000"
  shows "- 1000 < sint ms \<and> sint ms < 4294967296000"
proof -
  have r: "0 \<le> sint ms sdiv 1000" "sint ms sdiv 1000 < 4294967296"
    using assms by (simp_all add: and_mask32_iff go_div_1000_sint)
  show ?thesis
  proof (cases "0 \<le> sint ms")
    case True
    then have "sint ms sdiv 1000 = sint ms div 1000"
      by (simp add: signed_divide_int_def sgn_if)
    then show ?thesis using r True by linarith
  next
    case False
    then have "sint ms sdiv 1000 = - ((- sint ms) div 1000)"
      by (simp add: signed_divide_int_def sgn_if)
    moreover have "0 \<le> (- sint ms) div 1000" using False by (simp add: pos_imp_zdiv_nonneg_iff)
    ultimately have "(- sint ms) div 1000 = 0" using r by linarith
    then have "- sint ms = (- sint ms) mod 1000"
      using mult_div_mod_eq [of 1000 "- sint ms"] by simp
    moreover have "(- sint ms) mod 1000 < 1000" by simp
    ultimately have "- sint ms < 1000" by linarith
    then show ?thesis using False by linarith
  qed
qed

lemma sint_word_of_nat_small:
  assumes "k < 256"
  shows "sint (word_of_nat k :: int64) = int k"
  using assms sint_of_int64 [of "int k"] by simp

lemma emitted_issued:
  assumes "0 \<le> sint ms" "(go_div ms 1000 AND 0xFFFFFFFF) = go_div ms 1000" "(sid AND 0x3FFF) = sid"
    and "k < 256"
  shows "issued sid ms (mkID (go_div ms 1000) (go_mod ms 1000) (word_of_nat k) sid)"
proof -
  have "sint ms < 4294967296000" using seconds_ok_range [OF assms(2)] by simp
  moreover have "0 \<le> sint sid" "sint sid < 16384" using assms(3) by (simp_all add: and_mask14_iff)
  moreover have "0 \<le> sint (word_of_nat k :: int64)" "sint (word_of_nat k :: int64) < 256"
    using assms(4) by (simp_all add: sint_word_of_nat_small)
  ultimately show ?thesis using assms(1) unfolding issued_def by blast
qed

lemma attempt_Inr_cases [consumes 2, case_names skip emit]:
  assumes "attempt g sid (leftNum, lastMs, ids) w = (Inr (leftNum', lastMs', ids'), w')" "0 <s leftNum"
  obtains (skip) "lastMs' = fst (pickMS lastMs w)" "leftNum' = leftNum" "ids' = ids"
  | (emit) start n where "lastMs' = fst (pickMS lastMs w)" "0 < n" "start + n \<le> 256"
      "ids' = ids @ map (\<lambda>k. mkID (go_div lastMs' 1000) (go_mod lastMs' 1000) (word_of_nat k) sid)
                      [start ..< start + n]"
      "sint leftNum' = sint leftNum - int n" "0 \<le> sint leftNum'"
      "(go_div lastMs' 1000 AND 0xFFFFFFFF) = go_div lastMs' 1000" "(sid AND 0x3FFF) = sid"
  using attempt_Inr [OF assms] by blast


lemma GenMultiIDs_reaches:
  assumes "GenMultiIDs g n w = (Return ids, w')"
  obtains sid w1 idx lastMs where "\<not> n <s 0" "pickServerID g w = (Return sid, w1)"
    "reaches g sid (0, (n, 0, []), w1) (idx, (0, lastMs, ids), w')"
proof -
  from GenMultiIDs_Return [OF assms]
  obtain sid w1 lastMs where n: "\<not> n <s 0" and p: "pickServerID g w = (Return sid, w1)"
    and l: "loop g sid 0 (n, 0, []) w1 = (Inr (0, lastMs, ids), w')"
    by blast
  from loop_reaches_Inr [OF l] obtain idx where
    "reaches g sid (0, (n, 0, []), w1) (idx, (0, lastMs, ids), w')" by blast
  with n p that show ?thesis by blast
qed



section \<open>How many identifiers, and all different\<close>

lemma ms_from_fields:
  assumes "0 \<le> sint a" "0 \<le> sint b"
    and "go_div a 1000 = go_div b 1000" "go_mod a 1000 = go_mod b 1000"
  shows "a = b"
proof -
  have d: "sint a div 1000 = sint b div 1000"
    using go_div_nonneg [of a 1000] go_div_nonneg [of b 1000] assms by simp
  have m: "sint a mod 1000 = sint b mod 1000"
    using go_mod_nonneg [of a 1000] go_mod_nonneg [of b 1000] assms by simp
  have "sint a = 1000 * (sint a div 1000) + sint a mod 1000"
    by (rule mult_div_mod_eq [symmetric])
  also have "\<dots> = 1000 * (sint b div 1000) + sint b mod 1000"
    unfolding d m ..
  also have "\<dots> = sint b"
    by (rule mult_div_mod_eq)
  finally show ?thesis by (rule signed_word_eqI)
qed

lemma issued_inj:
  assumes "issued sid ms x" "issued sid ms' x"
  shows "ms = ms'"
proof -
  from assms(1) obtain i where
    b: "0 \<le> sint ms" "sint ms < 4294967296000" "0 \<le> sint sid" "sint sid < 16384"
      "0 \<le> sint i" "sint i < 256"
    and x: "x = mkID (go_div ms 1000) (go_mod ms 1000) i sid"
    unfolding issued_def by blast
  from assms(2) obtain i' where
    b': "0 \<le> sint ms'" "sint ms' < 4294967296000" "0 \<le> sint i'" "sint i' < 256"
    and x': "x = mkID (go_div ms' 1000) (go_mod ms' 1000) i' sid"
    unfolding issued_def by blast
  have f: "fields_ok (go_div ms 1000) (go_mod ms 1000) i sid"
    using b(1,2,5,6,3,4) by (rule fields_ok_ms)
  have f': "fields_ok (go_div ms' 1000) (go_mod ms' 1000) i' sid"
    using b'(1,2,3,4) b(3,4) by (rule fields_ok_ms)
  have e: "mkID (go_div ms 1000) (go_mod ms 1000) i sid = mkID (go_div ms' 1000) (go_mod ms' 1000) i' sid"
    using x x' by (rule trans [OF sym])
  from mkID_inj [OF f f' e] have "go_div ms 1000 = go_div ms' 1000" "go_mod ms 1000 = go_mod ms' 1000"
    by blast+
  with b(1) b'(1) show ?thesis by (rule ms_from_fields)
qed

lemma emitted_distinct:
  assumes "0 \<le> sint ms" "(go_div ms 1000 AND 0xFFFFFFFF) = go_div ms 1000" "(sid AND 0x3FFF) = sid"
    and "start + n \<le> 256"
  shows "distinct (map (\<lambda>k. mkID (go_div ms 1000) (go_mod ms 1000) (word_of_nat k) sid) [start ..< start + n])"
proof -
  have hi: "sint ms < 4294967296000" using seconds_ok_range [OF assms(2)] by simp
  have s: "0 \<le> sint sid" "sint sid < 16384" using assms(3) by (simp_all add: and_mask14_iff)
  have f: "fields_ok (go_div ms 1000) (go_mod ms 1000) (word_of_nat k) sid" if "k < 256" for k
    by (rule fields_ok_ms) (use that assms(1) hi s in \<open>simp_all add: sint_word_of_nat_small\<close>)
  have "inj_on (\<lambda>k. mkID (go_div ms 1000) (go_mod ms 1000) (word_of_nat k :: int64) sid) (set [start ..< start + n])"
  proof (rule inj_onI)
    fix j k
    assume j: "j \<in> set [start ..< start + n]" and k: "k \<in> set [start ..< start + n]"
      and e: "mkID (go_div ms 1000) (go_mod ms 1000) (word_of_nat j) sid =
              mkID (go_div ms 1000) (go_mod ms 1000) (word_of_nat k) sid"
    have jk: "j < 256" "k < 256" using j k assms(4) by simp_all
    from mkID_inj [OF f [OF jk(1)] f [OF jk(2)] e]
    have "(word_of_nat j :: int64) = word_of_nat k" by simp
    then have "sint (word_of_nat j :: int64) = sint (word_of_nat k :: int64)" by simp
    then show "j = k" using jk by (simp add: sint_word_of_nat_small)
  qed
  then show ?thesis by (simp add: distinct_map)
qed


lemma steady_inv_step:
  assumes inv: "steady_inv sid (idx, v, w)" and pos: "0 <s fst v" and idx: "idx < maxTimeAddrTimes"
    and a: "attempt g sid v w = (Inr v', w')"
  shows "steady_inv sid (Suc idx, v', w')"
proof -
  obtain leftNum lastMs ids where v: "v = (leftNum, lastMs, ids)" by (cases v)
  obtain leftNum' lastMs' ids' where v': "v' = (leftNum', lastMs', ids')" by (cases v')
  from inv v have c: "clock_steady (unixNano w)"
    and l: "0 \<le> sint lastMs" "sint lastMs \<le> 9223372036854 + int idx"
    and d: "distinct ids"
    and i: "\<forall>x\<in>set ids. \<exists>ms. sint ms \<le> sint lastMs \<and> issued sid ms x"
    by (simp_all add: steady_inv_def)
  have "unixNano w' = (\<lambda>i. unixNano w (Suc (Suc i)))"
    using attempt_clock [of g sid v w] a by simp
  then have c': "clock_steady (unixNano w')"
    using c by (simp add: clock_steady_def)
  have i8: "int idx < 8" using idx by (simp add: maxTimeAddrTimes_def)
  have "sint lastMs < 2 ^ 63 - 1" using l(2) i8 by simp
  with c have g: "sint lastMs < sint (fst (pickMS lastMs w))"
    "sint (fst (pickMS lastMs w)) \<le> sint lastMs + 1 \<or> sint (fst (pickMS lastMs w)) \<le> 9223372036854"
    using pickMS_steady [of w lastMs] by blast+
  have a': "attempt g sid (leftNum, lastMs, ids) w = (Inr (leftNum', lastMs', ids'), w')"
    using a v v' by simp
  have pos': "0 <s leftNum" using pos v by simp
  have old: "\<exists>ms. sint ms \<le> sint (fst (pickMS lastMs w)) \<and> issued sid ms x" if "x \<in> set ids" for x
  proof -
    from i that obtain ms where "sint ms \<le> sint lastMs" "issued sid ms x" by blast
    then show ?thesis using g(1) by (intro exI [of _ ms]) simp
  qed
  have bound: "0 \<le> sint (fst (pickMS lastMs w))"
    "sint (fst (pickMS lastMs w)) \<le> 9223372036854 + int (Suc idx)"
    using l g by linarith+
  have si: "Suc idx \<le> maxTimeAddrTimes" using idx by simp
  from a' pos' show ?thesis
  proof (cases rule: attempt_Inr_cases)
    case skip
    have "\<forall>x\<in>set ids'. \<exists>ms. sint ms \<le> sint lastMs' \<and> issued sid ms x"
      unfolding skip(1,3) using old by blast
    moreover have "distinct ids'" unfolding skip(3) by (rule d)
    ultimately show ?thesis
      unfolding steady_inv_def v' using c' bound si skip(1) by simp
  next
    case (emit start n)
    have m0: "0 \<le> sint lastMs'" unfolding emit(1) by (rule bound(1))
    let ?new = "map (\<lambda>k. mkID (go_div lastMs' 1000) (go_mod lastMs' 1000) (word_of_nat k) sid) [start ..< start + n]"
    have nd: "distinct ?new"
      using m0 emit(7,8,3) by (rule emitted_distinct)
    have ni: "issued sid lastMs' x" if "x \<in> set ?new" for x
    proof -
      from that obtain k where k: "k < start + n"
        and xk: "x = mkID (go_div lastMs' 1000) (go_mod lastMs' 1000) (word_of_nat k) sid"
        by auto
      have "k < 256" using k emit(3) by simp
      with m0 emit(7,8) show ?thesis unfolding xk by (rule emitted_issued)
    qed
    have dj: "set ids \<inter> set ?new = {}"
    proof (rule ccontr)
      assume "set ids \<inter> set ?new \<noteq> {}"
      then obtain x where x: "x \<in> set ids" "x \<in> set ?new" by blast
      from i x(1) obtain ms where ms: "sint ms \<le> sint lastMs" "issued sid ms x" by blast
      from issued_inj [OF ms(2) ni [OF x(2)]] have "ms = lastMs'" .
      with ms(1) g(1) emit(1) show False by simp
    qed
    have dd: "distinct ids'" unfolding emit(4) using d nd dj by simp
    have "\<exists>ms. sint ms \<le> sint lastMs' \<and> issued sid ms x" if "x \<in> set ids'" for x
    proof (cases "x \<in> set ids")
      case True
      then show ?thesis using old [of x] emit(1) by simp
    next
      case False
      with that have "x \<in> set ?new" unfolding emit(4) by simp
      then have "issued sid lastMs' x" by (rule ni)
      then show ?thesis by (intro exI [of _ lastMs']) simp
    qed
    then have "\<forall>x\<in>set ids'. \<exists>ms. sint ms \<le> sint lastMs' \<and> issued sid ms x" by blast
    then show ?thesis
      unfolding steady_inv_def v' using c' bound si dd emit(1) by simp
  qed
qed

section \<open>A store that keeps count\<close>

lemma pickMS_store: "store (snd (pickMS lastMs w)) = store w"
  by (simp add: pickMS_world)

lemma attempt_Inr_store:
  assumes a: "attempt g sid (leftNum, lastMs, ids) w = (Inr (leftNum', lastMs', ids'), w')"
    and pos: "0 <s leftNum"
  shows "\<exists>counter s2.
     IncrBy (cli g) (counterKey (namespace g) sid lastMs') leftNum (store w) = (Inr counter, s2) \<and>
     store w' = (if counter - leftNum = 0
                 then Expire (cli g) (counterKey (namespace g) sid lastMs') counterKeyExpiration s2 else s2) \<and>
     lastMs' = fst (pickMS lastMs w) \<and>
     (ids' = ids \<or>
      (\<exists>n. sint leftNum \<le> sint counter \<and>
         ids' = ids @ map (\<lambda>k. mkID (go_div lastMs' 1000) (go_mod lastMs' 1000) (word_of_nat k) sid)
                        [nat (sint counter - sint leftNum) ..< nat (sint counter - sint leftNum) + n] \<and>
         int (nat (sint counter - sint leftNum) + n) \<le> sint counter \<and>
         nat (sint counter - sint leftNum) + n \<le> 256 \<and>
         (go_div lastMs' 1000 AND 0xFFFFFFFF) = go_div lastMs' 1000 \<and>
         (sid AND 0x3FFF) = sid))"
proof -
  obtain ms w1 where p: "pickMS lastMs w = (ms, w1)" by (cases "pickMS lastMs w")
  have sw1: "store w1 = store w" using pickMS_store [of lastMs w] p by simp
  obtain r s2 where i: "IncrBy (cli g) (counterKey (namespace g) sid ms) leftNum (store w1) = (r, s2)"
    by (cases "IncrBy (cli g) (counterKey (namespace g) sid ms) leftNum (store w1)")
  from a p i obtain counter where r: "r = Inr counter"
    by (cases r) (simp_all add: attempt_def incrBy_def)
  define start where "start = counter - leftNum"
  define w2 where "w2 = w1\<lparr>store := s2, wire := wire w1 @ [INCRBY (counterKey (namespace g) sid ms) leftNum]\<rparr>"
  define w3 where "w3 = (if start = 0 then expire g (counterKey (namespace g) sid ms) w2 else w2)"
  have s3: "store w3 = (if start = 0
       then Expire (cli g) (counterKey (namespace g) sid ms) counterKeyExpiration s2 else s2)"
    by (simp add: w3_def w2_def expire_def)
  have lpos: "0 < sint leftNum" using pos by (simp add: word_sless_alt)
  have i': "IncrBy (cli g) (counterKey (namespace g) sid ms) leftNum (store w) = (Inr counter, s2)"
    using i r sw1 by simp
  show ?thesis
  proof (cases "maxCounter <s start")
    case True
    with a p i r have k: "lastMs' = ms" "ids' = ids" "w' = w3"
      by (auto simp: attempt_def incrBy_def Let_def start_def w3_def w2_def)
    have A: "IncrBy (cli g) (counterKey (namespace g) sid lastMs') leftNum (store w) = (Inr counter, s2)"
      using i' k(1) by simp
    have B: "store w' = (if counter - leftNum = 0
                 then Expire (cli g) (counterKey (namespace g) sid lastMs') counterKeyExpiration s2 else s2)"
      using s3 k(1,3) by (simp add: start_def)
    have C: "lastMs' = fst (pickMS lastMs w)" using p k(1) by simp
    from A B C k(2) show ?thesis by blast
  next
    case False
    note nskip = this
    show ?thesis
    proof (cases "counter <s leftNum")
      case True
      with a p i r nskip show ?thesis
        by (simp add: attempt_def incrBy_def Let_def start_def)
    next
      case False
      then have cge: "sint leftNum \<le> sint counter" by (simp add: word_sless_alt)
      have chi: "sint counter < 2 ^ 63" using sint_lt [of counter] by simp
      have st: "sint start = sint counter - sint leftNum"
        unfolding start_def using cge lpos chi by (intro sint_sub64) simp_all
      have st255: "sint start \<le> 255" using nskip by (simp add: word_sless_alt maxCounter_eq)
      have st0: "0 \<le> sint start" using st cge by simp
      define e where "e = (if maxCounter <s counter then maxCounter + 1 else counter)"
      have e: "sint e = (if 255 < sint counter then 256 else sint counter)"
        by (simp add: e_def word_sless_alt maxCounter_eq)
      from a p i r nskip False
      have res: "(go_div ms 1000 AND 0xFFFFFFFF) = go_div ms 1000" "(sid AND 0x3FFF) = sid"
        "lastMs' = ms" "w' = w3"
        "ids' = emit (go_div ms 1000) (go_mod ms 1000) sid start e ids"
        by (auto simp: attempt_def incrBy_def Let_def start_def e_def w3_def w2_def split: if_splits)
      have se: "sint start \<le> sint e" using e st st0 st255 lpos by (auto split: if_splits)
      have em: "ids' = ids @ map (\<lambda>k. mkID (go_div ms 1000) (go_mod ms 1000) (word_of_nat k) sid)
                   [nat (sint start) ..< nat (sint e)]"
        unfolding res(5) using st0 se by (rule emit_eq)
      define n where "n = nat (sint e) - nat (sint start)"
      have n: "nat (sint e) = nat (sint start) + n" using se st0 by (simp add: n_def)
      have le: "nat (sint start) + n \<le> 256" using e n st0 by (auto split: if_splits)
      have lc: "int (nat (sint start) + n) \<le> sint counter"
        using e n st0 se by (auto split: if_splits)
      have ex: "\<exists>n. sint leftNum \<le> sint counter \<and>
         ids' = ids @ map (\<lambda>k. mkID (go_div lastMs' 1000) (go_mod lastMs' 1000) (word_of_nat k) sid)
                        [nat (sint counter - sint leftNum) ..< nat (sint counter - sint leftNum) + n] \<and>
         int (nat (sint counter - sint leftNum) + n) \<le> sint counter \<and>
         nat (sint counter - sint leftNum) + n \<le> 256 \<and>
         (go_div lastMs' 1000 AND 0xFFFFFFFF) = go_div lastMs' 1000 \<and>
         (sid AND 0x3FFF) = sid"
        using cge em le lc res(1,2,3) unfolding n st
        by (intro exI [of _ n]) simp
      have A: "IncrBy (cli g) (counterKey (namespace g) sid lastMs') leftNum (store w) = (Inr counter, s2)"
        using i' res(3) by simp
      have B: "store w' = (if counter - leftNum = 0
                 then Expire (cli g) (counterKey (namespace g) sid lastMs') counterKeyExpiration s2 else s2)"
        using s3 res(3,4) by (simp add: start_def)
      have C: "lastMs' = fst (pickMS lastMs w)" using p res(3) by simp
      from A B C ex show ?thesis by blast
    qed
  qed
qed

lemma issuedAt_inj:
  assumes "issuedAt sid ms i x" "issuedAt sid ms' i' x"
  shows "ms = ms' \<and> i = i'"
proof -
  from assms have
    b: "0 \<le> sint ms" "sint ms < 4294967296000" "0 \<le> sint sid" "sint sid < 16384"
      "0 \<le> sint i" "sint i < 256"
    and x: "x = mkID (go_div ms 1000) (go_mod ms 1000) i sid"
    and b': "0 \<le> sint ms'" "sint ms' < 4294967296000" "0 \<le> sint i'" "sint i' < 256"
    and x': "x = mkID (go_div ms' 1000) (go_mod ms' 1000) i' sid"
    unfolding issuedAt_def by blast+
  have f: "fields_ok (go_div ms 1000) (go_mod ms 1000) i sid"
    using b(1,2,5,6,3,4) by (rule fields_ok_ms)
  have f': "fields_ok (go_div ms' 1000) (go_mod ms' 1000) i' sid"
    using b'(1,2,3,4) b(3,4) by (rule fields_ok_ms)
  have e: "mkID (go_div ms 1000) (go_mod ms 1000) i sid = mkID (go_div ms' 1000) (go_mod ms' 1000) i' sid"
    using x x' by (rule trans [OF sym])
  from mkID_inj [OF f f' e] have k: "go_div ms 1000 = go_div ms' 1000" "go_mod ms 1000 = go_mod ms' 1000" "i = i'"
    by blast+
  from b(1) b'(1) k(1,2) have "ms = ms'" by (rule ms_from_fields)
  with k(3) show ?thesis by simp
qed

lemma emitted_issuedAt:
  assumes "0 \<le> sint ms" "(go_div ms 1000 AND 0xFFFFFFFF) = go_div ms 1000" "(sid AND 0x3FFF) = sid"
    and "k < 256"
  shows "issuedAt sid ms (word_of_nat k) (mkID (go_div ms 1000) (go_mod ms 1000) (word_of_nat k) sid)"
proof -
  have "sint ms < 4294967296000" using seconds_ok_range [OF assms(2)] by simp
  moreover have "0 \<le> sint sid" "sint sid < 16384" using assms(3) by (simp_all add: and_mask14_iff)
  moreover have "0 \<le> sint (word_of_nat k :: int64)" "sint (word_of_nat k :: int64) < 256"
    using assms(4) by (simp_all add: sint_word_of_nat_small)
  ultimately show ?thesis using assms(1) unfolding issuedAt_def by blast
qed

lemma store_inv_step:
  assumes cs: "counter_store (cli g) held"
    and inv: "store_inv held (namespace g) sid (idx, v, w)" and pos: "0 <s fst v"
    and a: "attempt g sid v w = (Inr v', w')"
  shows "store_inv held (namespace g) sid (Suc idx, v', w')"
proof -
  obtain leftNum lastMs ids where v: "v = (leftNum, lastMs, ids)" by (cases v)
  obtain leftNum' lastMs' ids' where v': "v' = (leftNum', lastMs', ids')" by (cases v')
  from inv v have c: "clock_after_epoch (unixNano w)"
    and l: "0 \<le> sint lastMs \<or> sint lastMs < - 1000"
    and d: "distinct ids"
    and i: "\<forall>x\<in>set ids. \<exists>ms i. issuedAt sid ms i x \<and> sint i < held (store w) (counterKey (namespace g) sid ms)"
    by (simp_all add: store_inv_def)
  have "unixNano w' = (\<lambda>i. unixNano w (Suc (Suc i)))"
    using attempt_clock [of g sid v w] a by simp
  then have c': "clock_after_epoch (unixNano w')"
    using c by (simp add: clock_after_epoch_def)
  have a': "attempt g sid (leftNum, lastMs, ids) w = (Inr (leftNum', lastMs', ids'), w')"
    using a v v' by simp
  have pos': "0 <s leftNum" using pos v by simp
  then have lpos: "0 < sint leftNum" by (simp add: word_sless_alt)
  let ?key = "counterKey (namespace g) sid lastMs'"
  from attempt_Inr_store [OF a' pos'] obtain counter s2 where
    inc: "IncrBy (cli g) ?key leftNum (store w) = (Inr counter, s2)"
    and sw: "store w' = (if counter - leftNum = 0 then Expire (cli g) ?key counterKeyExpiration s2 else s2)"
    and m: "lastMs' = fst (pickMS lastMs w)"
    and e: "ids' = ids \<or>
      (\<exists>n. sint leftNum \<le> sint counter \<and>
         ids' = ids @ map (\<lambda>k. mkID (go_div lastMs' 1000) (go_mod lastMs' 1000) (word_of_nat k) sid)
                        [nat (sint counter - sint leftNum) ..< nat (sint counter - sint leftNum) + n] \<and>
         int (nat (sint counter - sint leftNum) + n) \<le> sint counter \<and>
         nat (sint counter - sint leftNum) + n \<le> 256 \<and>
         (go_div lastMs' 1000 AND 0xFFFFFFFF) = go_div lastMs' 1000 \<and>
         (sid AND 0x3FFF) = sid)"
    by blast
  from cs inc lpos have h: "held (store w) ?key \<le> sint counter - sint leftNum"
    "sint counter \<le> held s2 ?key" "\<And>k. held (store w) k \<le> held s2 k"
    unfolding counter_store_def by blast+
  from cs have ex: "\<And>k. held s2 k \<le> held (Expire (cli g) ?key counterKeyExpiration s2) k"
    unfolding counter_store_def by blast
  have up: "held s2 k \<le> held (store w') k" for k
    unfolding sw using ex [of k] by simp
  have mono: "held (store w) k \<le> held (store w') k" for k
    using h(3) [of k] up [of k] by linarith
  have top: "sint counter \<le> held (store w') ?key"
    using h(2) up [of ?key] by linarith
  have l': "0 \<le> sint lastMs' \<or> sint lastMs' < - 1000"
    unfolding m using c l by (rule pickMS_after_epoch)
  have old: "\<exists>ms i. issuedAt sid ms i x \<and> sint i < held (store w') (counterKey (namespace g) sid ms)"
    if "x \<in> set ids" for x
  proof -
    from i that obtain ms j where "issuedAt sid ms j x" "sint j < held (store w) (counterKey (namespace g) sid ms)"
      by blast
    then show ?thesis using mono [of "counterKey (namespace g) sid ms"]
      by (intro exI [of _ ms] exI [of _ j]) simp
  qed
  from e show ?thesis
  proof
    assume "ids' = ids"
    then show ?thesis
      unfolding store_inv_def v' using c' l' d old by simp
  next
    assume "\<exists>n. sint leftNum \<le> sint counter \<and>
         ids' = ids @ map (\<lambda>k. mkID (go_div lastMs' 1000) (go_mod lastMs' 1000) (word_of_nat k) sid)
                        [nat (sint counter - sint leftNum) ..< nat (sint counter - sint leftNum) + n] \<and>
         int (nat (sint counter - sint leftNum) + n) \<le> sint counter \<and>
         nat (sint counter - sint leftNum) + n \<le> 256 \<and>
         (go_div lastMs' 1000 AND 0xFFFFFFFF) = go_div lastMs' 1000 \<and>
         (sid AND 0x3FFF) = sid"
    then obtain n where ge: "sint leftNum \<le> sint counter"
      and eq: "ids' = ids @ map (\<lambda>k. mkID (go_div lastMs' 1000) (go_mod lastMs' 1000) (word_of_nat k) sid)
                        [nat (sint counter - sint leftNum) ..< nat (sint counter - sint leftNum) + n]"
      and le: "int (nat (sint counter - sint leftNum) + n) \<le> sint counter"
        "nat (sint counter - sint leftNum) + n \<le> 256"
      and ok: "(go_div lastMs' 1000 AND 0xFFFFFFFF) = go_div lastMs' 1000" "(sid AND 0x3FFF) = sid"
      by blast
    define start where "start = nat (sint counter - sint leftNum)"
    let ?new = "map (\<lambda>k. mkID (go_div lastMs' 1000) (go_mod lastMs' 1000) (word_of_nat k) sid) [start ..< start + n]"
    have st: "int start = sint counter - sint leftNum" using ge by (simp add: start_def)
    have le': "int (start + n) \<le> sint counter" using le(1) by (simp only: start_def)
    have m0: "0 \<le> sint lastMs'" using l' seconds_ok_range [OF ok(1)] by linarith
    have nd: "distinct ?new"
      using m0 ok le(2) unfolding start_def by (rule emitted_distinct)
    have ni: "\<exists>k. start \<le> k \<and> k < start + n \<and> issuedAt sid lastMs' (word_of_nat k) x" if "x \<in> set ?new" for x
    proof -
      from that obtain k where k: "start \<le> k" "k < start + n"
        and xk: "x = mkID (go_div lastMs' 1000) (go_mod lastMs' 1000) (word_of_nat k) sid"
        by auto
      have "k < 256" using k le(2) by (simp add: start_def)
      with m0 ok have "issuedAt sid lastMs' (word_of_nat k) x" unfolding xk by (rule emitted_issuedAt)
      with k show ?thesis by blast
    qed
    have dj: "set ids \<inter> set ?new = {}"
    proof (rule ccontr)
      assume "set ids \<inter> set ?new \<noteq> {}"
      then obtain x where x: "x \<in> set ids" "x \<in> set ?new" by blast
      from i x(1) obtain ms j where j: "issuedAt sid ms j x"
        "sint j < held (store w) (counterKey (namespace g) sid ms)" by blast
      from ni [OF x(2)] obtain k where k: "start \<le> k" "k < start + n"
        "issuedAt sid lastMs' (word_of_nat k) x" by blast
      from issuedAt_inj [OF j(1) k(3)] have "ms = lastMs'" "j = word_of_nat k" by simp_all
      moreover have "k < 256" using k(2) le(2) by (simp add: start_def)
      ultimately have "int k < held (store w) ?key"
        using j(2) by (simp add: sint_word_of_nat_small)
      with h(1) st k(1) show False by linarith
    qed
    have dd: "distinct ids'" unfolding eq start_def [symmetric] using d nd dj by simp
    have "\<exists>ms i. issuedAt sid ms i x \<and> sint i < held (store w') (counterKey (namespace g) sid ms)"
      if "x \<in> set ids'" for x
    proof (cases "x \<in> set ids")
      case True
      then show ?thesis by (rule old)
    next
      case False
      with that have "x \<in> set ?new" unfolding eq start_def [symmetric] by simp
      from ni [OF this] obtain k where k: "k < start + n" "issuedAt sid lastMs' (word_of_nat k) x" by blast
      have "k < 256" using k(1) le(2) by (simp add: start_def)
      then have "sint (word_of_nat k :: int64) = int k" by (rule sint_word_of_nat_small)
      moreover have "int k < sint counter" using k(1) le' by linarith
      ultimately have "sint (word_of_nat k :: int64) < held (store w') ?key" using top by linarith
      with k(2) show ?thesis by blast
    qed
    then show ?thesis
      unfolding store_inv_def v' using c' l' dd by simp
  qed
qed

lemma redis_counter_store: "counter_store redisClient (\<lambda>s key. sint (redisGet s key))"
proof -
  have sel: "IncrBy redisClient = redisIncrBy" "Expire redisClient = redisExpire"
    by (simp_all add: redisClient_def)
  have R1: "sint (redisGet s key) \<le> sint r - sint delta \<and> sint r \<le> sint (redisGet s' key) \<and>
      (\<forall>k. sint (redisGet s k) \<le> sint (redisGet s' k))"
    if "redisIncrBy key delta s = (Inr r, s') \<and> 0 < sint delta" for key delta s r s'
  proof -
    have t: "sint r - sint delta = sint (redisGet s key)"
      using that by (intro redisIncrBy_total [of key delta s r s']) simp
    have s': "s' = s\<lparr>vals := (vals s)(key \<mapsto> r)\<rparr>"
      using that by (auto simp: redisIncrBy_def Let_def split: if_splits)
    have g: "redisGet s' k = (if k = key then r else redisGet s k)" for k
      by (simp add: s' redisGet_def)
    show ?thesis using t that by (auto simp: g)
  qed
  have R2: "sint (redisGet s k) \<le> sint (redisGet (redisExpire key ttl s) k)" for key ttl s k
    by (simp add: redisExpire_def redisGet_def split: option.splits)
  show ?thesis
    unfolding counter_store_def sel using R1 R2 by blast
qed

text \<open>
  C1. A successful call returns exactly as many identifiers as were requested. They are
  pairwise distinct when the wall clock does not step back while the call runs,
  whatever the store answers; and they are pairwise distinct when the store keeps
  count and the clock is not before the epoch, however the clock moves.
\<close>

theorem ids_count_and_distinct:
  assumes "GenMultiIDs g n w = (Return ids, w')"
  shows "int (length ids) = sint n \<and>
     (clock_steady (unixNano w) \<or>
      clock_after_epoch (unixNano w) \<and> (\<exists>held. counter_store (cli g) held) \<longrightarrow> distinct ids)"
proof
  show "int (length ids) = sint n" using assms by (rule GenMultiIDs_length)
  from assms obtain sid w1 idx lastMs where p: "pickServerID g w = (Return sid, w1)"
    and r: "reaches g sid (0, (n, 0, []), w1) (idx, (0, lastMs, ids), w')"
    by (rule GenMultiIDs_reaches)
  from pickServerID_Return [OF p] have u: "unixNano w1 = unixNano w" by simp
  show "clock_steady (unixNano w) \<or>
      clock_after_epoch (unixNano w) \<and> (\<exists>held. counter_store (cli g) held) \<longrightarrow> distinct ids"
  proof
    assume "clock_steady (unixNano w) \<or>
      clock_after_epoch (unixNano w) \<and> (\<exists>held. counter_store (cli g) held)"
    then show "distinct ids"
    proof
      assume "clock_steady (unixNano w)"
      then have "steady_inv sid (0, (n, 0, []), w1)"
        using u by (simp add: steady_inv_def)
      with r have "steady_inv sid (idx, (0, lastMs, ids), w')"
        by (rule reaches_invariant) (rule steady_inv_step)
      then show "distinct ids" by (simp add: steady_inv_def)
    next
      assume "clock_after_epoch (unixNano w) \<and> (\<exists>held. counter_store (cli g) held)"
      then obtain held where c: "clock_after_epoch (unixNano w)" and h: "counter_store (cli g) held"
        by blast
      have "store_inv held (namespace g) sid (0, (n, 0, []), w1)"
        using c u by (simp add: store_inv_def)
      with r have "store_inv held (namespace g) sid (idx, (0, lastMs, ids), w')"
        by (rule reaches_invariant) (rule store_inv_step [OF h])
      then show "distinct ids" by (simp add: store_inv_def)
    qed
  qed
qed

theorem ids_count_and_distinct_witness:
  "int (length (map (\<lambda>k. mkID 0 5 (word_of_nat k) 7) [0 ..< 5])) = 5 \<and>
   distinct (map (\<lambda>k. mkID 0 5 (word_of_nat k) 7) [0 ..< 5])"
proof -
  obtain w' where m: "GenMultiIDs g7 5 (frozen 5000000) =
      (Return (map (\<lambda>k. mkID 0 5 (word_of_nat k) 7) [0 ..< 5]), w')"
    using frozen_call [of 5] by auto
  have c: "clock_steady (unixNano (frozen 5000000))"
    by (simp add: clock_steady_def frozen_def)
  have e: "clock_after_epoch (unixNano (frozen 5000000))"
    by (simp add: clock_after_epoch_def frozen_def word_sle_eq)
  have h: "\<exists>held. counter_store (cli g7) held"
    using redis_counter_store by (auto simp: g7_def)
  show ?thesis
    using ids_count_and_distinct [OF m] c e h by simp
qed

end
